theory Spec2Isabelle
  imports Main "HOL-Library.Word"
begin

section \<open>Bytes and reserved constants\<close>

type_synonym byte = "8 word"

text \<open>The test helper \<^verbatim>\<open>b(s string) []byte\<close>: the bytes of a string.\<close>

definition b :: "string \<Rightarrow> byte list" where
  "b s = map of_char s"

text \<open>
  Modelled from the spec: the reserved byte constants \<^verbatim>\<open>tsep\<close>, \<^verbatim>\<open>pwc\<close>, \<^verbatim>\<open>fwc\<close> and
  \<^verbatim>\<open>noPivot\<close>. Their declarations are not among the sources; section 6 of the
  specification gives the values \<^verbatim>\<open>'.' (0x2E)\<close>, \<^verbatim>\<open>'*' (0x2A)\<close>, \<^verbatim>\<open>'>' (0x3E)\<close> and
  \<^verbatim>\<open>0x7F\<close>.
\<close>

definition tsep :: byte where "tsep = 0x2E"
definition pwc :: byte where "pwc = 0x2A"
definition fwc :: byte where "fwc = 0x3E"
definition noPivot :: byte where "noPivot = 0x7F"

text \<open>The slice expression \<^verbatim>\<open>xs[lo:hi]\<close> for \<open>lo \<le> hi \<le> length xs\<close>.\<close>

definition subslice :: "'a list \<Rightarrow> nat \<Rightarrow> nat \<Rightarrow> 'a list" where
  "subslice xs lo hi = take (hi - lo) (drop lo xs)"

section \<open>Filter parsing: \<^verbatim>\<open>genParts\<close> (parts.go)\<close>

text \<open>
  One pass through the body of the loop
  \<^verbatim>\<open>for i, e := 0, len(filter)-1; i < len(filter); i++\<close>, entered with \<open>i < len(filter)\<close>.
  The body changes \<open>i\<close>, \<open>start\<close> and \<open>parts\<close>; a \<^verbatim>\<open>continue\<close> leaves all three as
  they were. The body runs only for a nonempty filter, where \<open>e = len(filter) - 1\<close> is not
  negative. Every index read is guarded as in the source (\<open>i < e\<close> before
  \<open>filter[i+1]\<close>, \<open>i+2 \<le> e\<close> before \<open>filter[i+2]\<close>, \<open>prev \<ge> 0\<close> before \<open>filter[prev]\<close>,
  \<open>next < e\<close> before \<open>filter[next]\<close>).
\<close>

definition genParts_body ::
  "byte list \<Rightarrow> nat \<Rightarrow> nat \<Rightarrow> byte list list \<Rightarrow> nat \<times> nat \<times> byte list list" where
  "genParts_body filt i start parts =
    (let e = length filt - 1 in
     if filt ! i = tsep then
       if i < e \<and> filt ! (i + 1) = pwc \<and> (i + 2 \<le> e \<and> filt ! (i + 2) = tsep \<or> i + 1 = e) then
         let parts1 = (if i > start then parts @ [subslice filt start (i + 1)] else parts);
             parts2 = parts1 @ [subslice filt (i + 1) (i + 2)];
             i1 = i + 1;
             i2 = (if i1 + 2 \<le> e then i1 + 1 else i1)
         in (i2, i2 + 1, parts2)
       else if i < e \<and> filt ! (i + 1) = fwc \<and> i + 1 = e then
         let parts1 = (if i > start then parts @ [subslice filt start (i + 1)] else parts);
             parts2 = parts1 @ [subslice filt (i + 1) (i + 2)];
             i1 = i + 1
         in (i1, i1 + 1, parts2)
       else (i, start, parts)
     else if filt ! i = pwc \<or> filt ! i = fwc then
       if i \<ge> 1 \<and> filt ! (i - 1) \<noteq> tsep then (i, start, parts)
       else if i + 1 = e \<or> i + 1 < e \<and> filt ! (i + 1) \<noteq> tsep then (i, start, parts)
       else
         let parts1 = parts @ [subslice filt i (i + 1)];
             i1 = (if i + 1 \<le> e then i + 1 else i)
         in (i1, i1 + 1, parts1)
     else (i, start, parts))"

lemma genParts_body_ge: "genParts_body filt i start parts = (i', start', parts') \<Longrightarrow> i \<le> i'"
  by (auto simp: genParts_body_def Let_def split: if_splits)

text \<open>The loop: the body, then \<open>i++\<close>, while \<open>i < len(filter)\<close>. It returns \<open>start\<close> and \<open>parts\<close>.\<close>

function genParts_loop :: "byte list \<Rightarrow> nat \<Rightarrow> nat \<Rightarrow> byte list list \<Rightarrow> nat \<times> byte list list" where
  "genParts_loop filt i start parts =
    (if i < length filt then
       (case genParts_body filt i start parts of
          (i', start', parts') \<Rightarrow> genParts_loop filt (i' + 1) start' parts')
     else (start, parts))"
  by pat_completeness auto
termination
  apply (relation "measure (\<lambda>(filt, i, start, parts). length filt - i)")
   apply simp
  apply (auto dest!: sym [THEN genParts_body_ge])
  done

declare genParts_loop.simps [simp del]

definition genParts :: "byte list \<Rightarrow> byte list list \<Rightarrow> byte list list" where
  "genParts filt parts =
    (case genParts_loop filt 0 0 parts of
       (start, parts') \<Rightarrow>
         if start < length filt then
           (let start' = (if filt ! start = tsep then start + 1 else start)
            in parts' @ [drop start' filt])
         else parts')"

text \<open>
  The entire-token rule in the words of the specification: the byte at \<open>i\<close> is \<^verbatim>\<open>*\<close> or
  \<^verbatim>\<open>>\<close>, it is at position 0 or preceded by the token separator, and it is at the end of
  the filter or followed by the token separator.
\<close>

definition entire_token_wildcard :: "byte list \<Rightarrow> nat \<Rightarrow> bool" where
  "entire_token_wildcard filt i \<longleftrightarrow>
     i < length filt \<and> (filt ! i = pwc \<or> filt ! i = fwc) \<and>
     (i = 0 \<or> filt ! (i - 1) = tsep) \<and>
     (i + 1 = length filt \<or> filt ! (i + 1) = tsep)"




section \<open>Fragment matching: \<^verbatim>\<open>matchParts\<close> (parts.go)\<close>

text \<open>
  \<^verbatim>\<open>bytes.IndexByte(b, c)\<close> of the Go standard library: the index of the first \<open>c\<close> in
  \<open>b\<close>; \<open>None\<close> stands for the result \<open>-1\<close>.
\<close>

fun IndexByte :: "byte list \<Rightarrow> byte \<Rightarrow> nat option" where
  "IndexByte [] c = None"
| "IndexByte (x # xs) c = (if x = c then Some 0 else map_option Suc (IndexByte xs c))"

text \<open>
  A value of type \<^verbatim>\<open>[][]byte\<close> is a slice header: it points into a backing array and
  has a length. \<^verbatim>\<open>matchParts\<close> writes to \<^verbatim>\<open>parts[i]\<close> in one branch, after copying, so
  the backing arrays are kept in an explicit store: the store is the list of the arrays
  allocated so far, an address is a position in that list, and an allocation appends. The
  parts themselves are never written to, so a part is its bytes.
\<close>

type_synonym store = "byte list list list"

record pslice =
  arr :: nat
  off :: nat
  len :: nat

text \<open>The parts a slice header denotes; \<^verbatim>\<open>parts[i]\<close>; \<^verbatim>\<open>parts[i:]\<close>.\<close>

definition elems :: "store \<Rightarrow> pslice \<Rightarrow> byte list list" where
  "elems h s = take (len s) (drop (off s) (h ! arr s))"

definition part_at :: "store \<Rightarrow> pslice \<Rightarrow> nat \<Rightarrow> byte list" where
  "part_at h s i = (h ! arr s) ! (off s + i)"

definition reslice :: "pslice \<Rightarrow> nat \<Rightarrow> pslice" where
  "reslice s i = s\<lparr>off := off s + i, len := len s - i\<rparr>"

text \<open>\<^verbatim>\<open>append([][]byte{}, parts...)\<close>: a new backing array holding the elements of \<open>parts\<close>.\<close>

definition copy_parts :: "store \<Rightarrow> pslice \<Rightarrow> store \<times> pslice" where
  "copy_parts h s = (h @ [elems h s], \<lparr>arr = length h, off = 0, len = len s\<rparr>)"

text \<open>The assignment \<^verbatim>\<open>parts[i] = v\<close>.\<close>

definition set_part :: "store \<Rightarrow> pslice \<Rightarrow> nat \<Rightarrow> byte list \<Rightarrow> store" where
  "set_part h s i v = h[arr s := (h ! arr s)[off s + i := v]]"

text \<open>
  One pass through the body of \<^verbatim>\<open>for i, part := range parts\<close>: it either returns from
  the function or goes on to the next part with a new scan position \<open>si\<close>. The result of
  the function is the store, the returned slice (\<open>None\<close> for \<^verbatim>\<open>nil\<close>) and the flag.
\<close>

datatype 'a step = Continue nat | Return 'a

definition matchParts_body ::
  "store \<Rightarrow> pslice \<Rightarrow> byte list \<Rightarrow> nat \<Rightarrow> nat \<Rightarrow> (store \<times> pslice option \<times> bool) step" where
  "matchParts_body h s frag i si =
    (let lf = length frag; lpi = len s - 1; part = part_at h s i in
     if si \<ge> lf then Return (h, Some (reslice s i), True)
     else
       let lp = length part in
       if lp = 1 \<and> part ! 0 = pwc then
         (case IndexByte (drop si frag) tsep of
            None \<Rightarrow>
              if i = lpi then Return (h, None, True)
              else Return (h, Some (reslice s i), True)
          | Some index \<Rightarrow> Continue (si + index + 1))
       else if lp = 1 \<and> part ! 0 = fwc then Return (h, None, True)
       else
         let en = min (si + lp) lf;
             part' = (if si + lp > en then take (en - si) part else part)
         in if part' \<noteq> subslice frag si en then Return (h, Some s, False)
            else if en < lf then Continue en
            else if en < si + lp then
              (if en \<ge> lf then
                 (case copy_parts h s of
                    (h1, s1) \<Rightarrow>
                      Return (set_part h1 s1 i (drop (lf - si) (part_at h1 s1 i)),
                              Some (reslice s1 i), True))
               else Return (h, Some (reslice s (i + 1)), True))
            else if i = lpi then Return (h, None, True)
            else Continue (si + length part'))"

function matchParts_loop ::
  "store \<Rightarrow> pslice \<Rightarrow> byte list \<Rightarrow> nat \<Rightarrow> nat \<Rightarrow> store \<times> pslice option \<times> bool" where
  "matchParts_loop h s frag i si =
    (if i < len s then
       (case matchParts_body h s frag i si of
          Return r \<Rightarrow> r
        | Continue si' \<Rightarrow> matchParts_loop h s frag (i + 1) si')
     else (h, Some s, False))"
  by pat_completeness auto
termination
  by (relation "measure (\<lambda>(h, s, frag, i, si). len s - i)") auto

declare matchParts_loop.simps [simp del]

definition matchParts :: "store \<Rightarrow> pslice \<Rightarrow> byte list \<Rightarrow> store \<times> pslice option \<times> bool" where
  "matchParts h s frag =
    (if length frag = 0 then (h, Some s, True) else matchParts_loop h s frag 0 0)"

text \<open>A slice header that points into an allocated array and stays within it.\<close>

definition valid_slice :: "store \<Rightarrow> pslice \<Rightarrow> bool" where
  "valid_slice h s \<longleftrightarrow> arr s < length h \<and> off s + len s \<le> length (h ! arr s)"

text \<open>
  \<^verbatim>\<open>matchParts\<close> on values: the caller's parts are the only array of the store, and the
  result is read back from the store the call leaves (\<^verbatim>\<open>nil\<close> has no elements).
\<close>

definition matchParts_v :: "byte list list \<Rightarrow> byte list \<Rightarrow> byte list list \<times> bool" where
  "matchParts_v parts frag =
    (case matchParts [parts] \<lparr>arr = 0, off = 0, len = length parts\<rparr> frag of
       (h', r, ok) \<Rightarrow> ((case r of None \<Rightarrow> [] | Some s' \<Rightarrow> elems h' s'), ok))"

section \<open>Internal nodes (node.go and the five node variants)\<close>

text \<open>
  The children of a node are values of the interface type \<^verbatim>\<open>node\<close>, which the node
  operations store, move and hand out but never inspect. They are modelled as
  \<open>'n option\<close>: \<open>None\<close> is the \<^verbatim>\<open>nil\<close> interface value, \<open>Some x\<close> a child \<open>x\<close>. A fixed-size
  array indexed by a number is a list of that length; an array of 256 entries indexed by a
  byte is a function on bytes. The field \<^verbatim>\<open>size\<close> (\<^verbatim>\<open>uint16\<close>) is a natural number; where the
  source increments or decrements it without a guard, the wrap-around is written out.
  Array accesses are within bounds whenever \<open>size\<close> is at most the capacity and the
  entries of the dispatch table of a \<^verbatim>\<open>node48\<close> are at most 48, which the operations
  maintain; outside of that a Go program stops with a run-time panic, which the model
  does not describe.

  \<^verbatim>\<open>findChild\<close> returns a pointer to a child slot, or \<^verbatim>\<open>nil\<close>: the model returns the
  position of the slot, or \<open>None\<close>. A \<^verbatim>\<open>panic\<close> is an error value.
\<close>

datatype panic = Panic string

record meta =
  prefix :: "byte list"
  size_m :: nat

text \<open>\<^verbatim>\<open>n.prefix = append([]byte(nil), pre...)\<close>: the prefix becomes a copy of \<open>pre\<close>.\<close>

definition setPrefix :: "'a meta_scheme \<Rightarrow> byte list \<Rightarrow> 'a meta_scheme" where
  "setPrefix n pre = n\<lparr>prefix := pre\<rparr>"

definition numChildren :: "'a meta_scheme \<Rightarrow> nat" where
  "numChildren n = size_m n"

text \<open>
  The callback handed to \<^verbatim>\<open>iter\<close> is a closure: it is called with a child, may change
  its own state \<open>'s\<close>, and returns whether to go on.
\<close>

subsection \<open>\<^verbatim>\<open>node4\<close>\<close>

record 'n node4 = meta +
  child4 :: "'n option list"
  key4 :: "byte list"

definition newNode4 :: "byte list \<Rightarrow> 'n node4" where
  "newNode4 pre =
     setPrefix \<lparr>prefix = [], size_m = 0, child4 = replicate 4 None, key4 = replicate 4 0\<rparr> pre"

definition node4_addChild :: "'n node4 \<Rightarrow> byte \<Rightarrow> 'n option \<Rightarrow> panic + 'n node4" where
  "node4_addChild n c nn =
     (if size_m n \<ge> 4 then Inl (Panic ''node4 full!'')
      else Inr (n\<lparr>key4 := (key4 n)[size_m n := c],
                  child4 := (child4 n)[size_m n := nn],
                  size_m := size_m n + 1\<rparr>))"

function node4_findChild_loop :: "'n node4 \<Rightarrow> byte \<Rightarrow> nat \<Rightarrow> nat option" where
  "node4_findChild_loop n c i =
     (if i < size_m n then
        if key4 n ! i = c then Some i else node4_findChild_loop n c (i + 1)
      else None)"
  by pat_completeness auto
termination
  by (relation "measure (\<lambda>(n, c, i). size_m n - i)") auto

declare node4_findChild_loop.simps [simp del]

definition node4_findChild :: "'n node4 \<Rightarrow> byte \<Rightarrow> nat option" where
  "node4_findChild n c = node4_findChild_loop n c 0"

definition node4_isFull :: "'n node4 \<Rightarrow> bool" where
  "node4_isFull n \<longleftrightarrow> size_m n \<ge> 4"

function node4_iter_loop :: "'n node4 \<Rightarrow> ('n option \<Rightarrow> 's \<Rightarrow> bool \<times> 's) \<Rightarrow> nat \<Rightarrow> 's \<Rightarrow> 's" where
  "node4_iter_loop n f i s =
     (if i < size_m n then
        (case f (child4 n ! i) s of
           (continue, s') \<Rightarrow> if \<not> continue then s' else node4_iter_loop n f (i + 1) s')
      else s)"
  by pat_completeness auto
termination
  by (relation "measure (\<lambda>(n, f, i, s). size_m n - i)") auto

declare node4_iter_loop.simps [simp del]

definition node4_iter :: "'n node4 \<Rightarrow> ('n option \<Rightarrow> 's \<Rightarrow> bool \<times> 's) \<Rightarrow> 's \<Rightarrow> 's" where
  "node4_iter n f s = node4_iter_loop n f 0 s"

definition node4_children :: "'n node4 \<Rightarrow> 'n option list" where
  "node4_children n = take (size_m n) (child4 n)"

definition node4_shrink :: "'n node4 \<Rightarrow> 'n option" where
  "node4_shrink n = (if size_m n = 1 then child4 n ! 0 else None)"

subsection \<open>\<^verbatim>\<open>node10\<close>\<close>

record 'n node10 = meta +
  child10 :: "'n option list"
  key10 :: "byte list"

definition newNode10 :: "byte list \<Rightarrow> 'n node10" where
  "newNode10 pre =
     setPrefix \<lparr>prefix = [], size_m = 0, child10 = replicate 10 None, key10 = replicate 10 0\<rparr> pre"

definition node10_addChild :: "'n node10 \<Rightarrow> byte \<Rightarrow> 'n option \<Rightarrow> panic + 'n node10" where
  "node10_addChild n c nn =
     (if size_m n \<ge> 10 then Inl (Panic ''node10 full!'')
      else Inr (n\<lparr>key10 := (key10 n)[size_m n := c],
                  child10 := (child10 n)[size_m n := nn],
                  size_m := size_m n + 1\<rparr>))"

function node10_findChild_loop :: "'n node10 \<Rightarrow> byte \<Rightarrow> nat \<Rightarrow> nat option" where
  "node10_findChild_loop n c i =
     (if i < size_m n then
        if key10 n ! i = c then Some i else node10_findChild_loop n c (i + 1)
      else None)"
  by pat_completeness auto
termination
  by (relation "measure (\<lambda>(n, c, i). size_m n - i)") auto

declare node10_findChild_loop.simps [simp del]

definition node10_findChild :: "'n node10 \<Rightarrow> byte \<Rightarrow> nat option" where
  "node10_findChild n c = node10_findChild_loop n c 0"

definition node10_isFull :: "'n node10 \<Rightarrow> bool" where
  "node10_isFull n \<longleftrightarrow> size_m n \<ge> 10"

function node10_iter_loop :: "'n node10 \<Rightarrow> ('n option \<Rightarrow> 's \<Rightarrow> bool \<times> 's) \<Rightarrow> nat \<Rightarrow> 's \<Rightarrow> 's" where
  "node10_iter_loop n f i s =
     (if i < size_m n then
        (case f (child10 n ! i) s of
           (continue, s') \<Rightarrow> if \<not> continue then s' else node10_iter_loop n f (i + 1) s')
      else s)"
  by pat_completeness auto
termination
  by (relation "measure (\<lambda>(n, f, i, s). size_m n - i)") auto

declare node10_iter_loop.simps [simp del]

definition node10_iter :: "'n node10 \<Rightarrow> ('n option \<Rightarrow> 's \<Rightarrow> bool \<times> 's) \<Rightarrow> 's \<Rightarrow> 's" where
  "node10_iter n f s = node10_iter_loop n f 0 s"

definition node10_children :: "'n node10 \<Rightarrow> 'n option list" where
  "node10_children n = take (size_m n) (child10 n)"

function node10_shrink_loop :: "'n node10 \<Rightarrow> nat \<Rightarrow> 'n node4 \<Rightarrow> panic + 'n node4" where
  "node10_shrink_loop n i nn =
     (if i < size_m n then
        (case node4_addChild nn (key10 n ! i) (child10 n ! i) of
           Inl e \<Rightarrow> Inl e
         | Inr nn' \<Rightarrow> node10_shrink_loop n (i + 1) nn')
      else Inr nn)"
  by pat_completeness auto
termination
  by (relation "measure (\<lambda>(n, i, nn). size_m n - i)") auto

declare node10_shrink_loop.simps [simp del]

definition node10_shrink :: "'n node10 \<Rightarrow> panic + 'n node4 option" where
  "node10_shrink n =
     (if size_m n > 4 then Inr None
      else map_sum id Some (node10_shrink_loop n 0 (newNode4 [])))"

subsection \<open>\<^verbatim>\<open>node16\<close>\<close>

record 'n node16 = meta +
  child16 :: "'n option list"
  key16 :: "byte list"

definition newNode16 :: "byte list \<Rightarrow> 'n node16" where
  "newNode16 pre =
     setPrefix \<lparr>prefix = [], size_m = 0, child16 = replicate 16 None, key16 = replicate 16 0\<rparr> pre"

definition node16_addChild :: "'n node16 \<Rightarrow> byte \<Rightarrow> 'n option \<Rightarrow> panic + 'n node16" where
  "node16_addChild n c nn =
     (if size_m n \<ge> 16 then Inl (Panic ''node16 full!'')
      else Inr (n\<lparr>key16 := (key16 n)[size_m n := c],
                  child16 := (child16 n)[size_m n := nn],
                  size_m := size_m n + 1\<rparr>))"

function node16_findChild_loop :: "'n node16 \<Rightarrow> byte \<Rightarrow> nat \<Rightarrow> nat option" where
  "node16_findChild_loop n c i =
     (if i < size_m n then
        if key16 n ! i = c then Some i else node16_findChild_loop n c (i + 1)
      else None)"
  by pat_completeness auto
termination
  by (relation "measure (\<lambda>(n, c, i). size_m n - i)") auto

declare node16_findChild_loop.simps [simp del]

definition node16_findChild :: "'n node16 \<Rightarrow> byte \<Rightarrow> nat option" where
  "node16_findChild n c = node16_findChild_loop n c 0"

definition node16_isFull :: "'n node16 \<Rightarrow> bool" where
  "node16_isFull n \<longleftrightarrow> size_m n \<ge> 16"

function node16_iter_loop :: "'n node16 \<Rightarrow> ('n option \<Rightarrow> 's \<Rightarrow> bool \<times> 's) \<Rightarrow> nat \<Rightarrow> 's \<Rightarrow> 's" where
  "node16_iter_loop n f i s =
     (if i < size_m n then
        (case f (child16 n ! i) s of
           (continue, s') \<Rightarrow> if \<not> continue then s' else node16_iter_loop n f (i + 1) s')
      else s)"
  by pat_completeness auto
termination
  by (relation "measure (\<lambda>(n, f, i, s). size_m n - i)") auto

declare node16_iter_loop.simps [simp del]

definition node16_iter :: "'n node16 \<Rightarrow> ('n option \<Rightarrow> 's \<Rightarrow> bool \<times> 's) \<Rightarrow> 's \<Rightarrow> 's" where
  "node16_iter n f s = node16_iter_loop n f 0 s"

definition node16_children :: "'n node16 \<Rightarrow> 'n option list" where
  "node16_children n = take (size_m n) (child16 n)"

function node16_shrink_loop :: "'n node16 \<Rightarrow> nat \<Rightarrow> 'n node10 \<Rightarrow> panic + 'n node10" where
  "node16_shrink_loop n i nn =
     (if i < size_m n then
        (case node10_addChild nn (key16 n ! i) (child16 n ! i) of
           Inl e \<Rightarrow> Inl e
         | Inr nn' \<Rightarrow> node16_shrink_loop n (i + 1) nn')
      else Inr nn)"
  by pat_completeness auto
termination
  by (relation "measure (\<lambda>(n, i, nn). size_m n - i)") auto

declare node16_shrink_loop.simps [simp del]

definition node16_shrink :: "'n node16 \<Rightarrow> panic + 'n node10 option" where
  "node16_shrink n =
     (if size_m n > 10 then Inr None
      else map_sum id Some (node16_shrink_loop n 0 (newNode10 [])))"








subsection \<open>\<^verbatim>\<open>node48\<close>\<close>

record 'n node48 = meta +
  child48 :: "'n option list"
  key48 :: "byte \<Rightarrow> byte"

definition newNode48 :: "byte list \<Rightarrow> 'n node48" where
  "newNode48 pre =
     setPrefix \<lparr>prefix = [], size_m = 0, child48 = replicate 48 None, key48 = (\<lambda>c. 0)\<rparr> pre"

definition node48_addChild :: "'n node48 \<Rightarrow> byte \<Rightarrow> 'n option \<Rightarrow> panic + 'n node48" where
  "node48_addChild n c nn =
     (if size_m n \<ge> 48 then Inl (Panic ''node48 full!'')
      else Inr (n\<lparr>child48 := (child48 n)[size_m n := nn],
                  key48 := (key48 n)(c := of_nat (size_m n + 1)),
                  size_m := size_m n + 1\<rparr>))"

definition node48_findChild :: "'n node48 \<Rightarrow> byte \<Rightarrow> nat option" where
  "node48_findChild n c =
     (let i = key48 n c in if i = 0 then None else Some (unat (i - 1)))"

definition node48_isFull :: "'n node48 \<Rightarrow> bool" where
  "node48_isFull n \<longleftrightarrow> size_m n \<ge> 48"

text \<open>
  The scan of \<^verbatim>\<open>deleteChild\<close>: the first entry of the table equal to \<open>last + 1\<close> becomes
  \<open>i + 1\<close>, and the scan stops there.
\<close>

function node48_repair :: "(byte \<Rightarrow> byte) \<Rightarrow> byte \<Rightarrow> byte \<Rightarrow> nat \<Rightarrow> byte \<Rightarrow> byte" where
  "node48_repair key last1 i1 ic =
     (if ic < 256 then
        if key (of_nat ic) = last1 then key(of_nat ic := i1)
        else node48_repair key last1 i1 (ic + 1)
      else key)"
  by pat_completeness auto
termination
  by (relation "measure (\<lambda>(key, last1, i1, ic). 256 - ic)") auto

declare node48_repair.simps [simp del]

text \<open>
  \<open>i\<close> and \<open>last\<close> are bytes. \<^verbatim>\<open>n.size - 1\<close> and \<^verbatim>\<open>n.size--\<close> are \<^verbatim>\<open>uint16\<close> arithmetic,
  written here as \<open>(size + 65535) mod 65536\<close>.
\<close>

definition node48_deleteChild :: "'n node48 \<Rightarrow> byte \<Rightarrow> 'n node48" where
  "node48_deleteChild n c =
     (let i = key48 n c in
      if i = 0 then n
      else
        let i = i - 1;
            last = (of_nat ((size_m n + 65535) mod 65536) :: byte);
            n1 = (if i < last then
                    n\<lparr>child48 := (child48 n)[unat i := child48 n ! unat last],
                      key48 := node48_repair (key48 n) (last + 1) (i + 1) 0\<rparr>
                  else n)
        in n1\<lparr>child48 := (child48 n1)[unat last := None],
               key48 := (key48 n1)(c := 0),
               size_m := (size_m n1 + 65535) mod 65536\<rparr>)"

function node48_iter_loop :: "'n node48 \<Rightarrow> ('n option \<Rightarrow> 's \<Rightarrow> bool \<times> 's) \<Rightarrow> nat \<Rightarrow> 's \<Rightarrow> 's" where
  "node48_iter_loop n f i s =
     (if i < 48 then
        if child48 n ! i \<noteq> None then
          (case f (child48 n ! i) s of
             (continue, s') \<Rightarrow> if \<not> continue then s' else node48_iter_loop n f (i + 1) s')
        else node48_iter_loop n f (i + 1) s
      else s)"
  by pat_completeness auto
termination
  by (relation "measure (\<lambda>(n, f, i, s). 48 - i)") auto

declare node48_iter_loop.simps [simp del]

definition node48_iter :: "'n node48 \<Rightarrow> ('n option \<Rightarrow> 's \<Rightarrow> bool \<times> 's) \<Rightarrow> 's \<Rightarrow> 's" where
  "node48_iter n f s = node48_iter_loop n f 0 s"

definition node48_children :: "'n node48 \<Rightarrow> 'n option list" where
  "node48_children n = take (size_m n) (child48 n)"

function node48_shrink_loop :: "'n node48 \<Rightarrow> nat \<Rightarrow> 'n node16 \<Rightarrow> panic + 'n node16" where
  "node48_shrink_loop n c nn =
     (if c < 256 then
        if key48 n (of_nat c) > 0 then
          (case node16_addChild nn (of_nat c) (child48 n ! unat (key48 n (of_nat c) - 1)) of
             Inl e \<Rightarrow> Inl e
           | Inr nn' \<Rightarrow> node48_shrink_loop n (c + 1) nn')
        else node48_shrink_loop n (c + 1) nn
      else Inr nn)"
  by pat_completeness auto
termination
  by (relation "measure (\<lambda>(n, c, nn). 256 - c)") auto

declare node48_shrink_loop.simps [simp del]

definition node48_shrink :: "'n node48 \<Rightarrow> panic + 'n node16 option" where
  "node48_shrink n =
     (if size_m n > 16 then Inr None
      else map_sum id Some (node48_shrink_loop n 0 (newNode16 [])))"




subsection \<open>\<^verbatim>\<open>node256\<close>\<close>

record 'n node256 = meta +
  child256 :: "byte \<Rightarrow> 'n option"



definition node256_findChild :: "'n node256 \<Rightarrow> byte \<Rightarrow> byte option" where
  "node256_findChild n c = (if child256 n c \<noteq> None then Some c else None)"

definition node256_isFull :: "'n node256 \<Rightarrow> bool" where
  "node256_isFull n \<longleftrightarrow> False"

definition node256_grow :: "'n node256 \<Rightarrow> panic + 'n node256" where
  "node256_grow n = Inl (Panic ''grow can not be called on node256'')"

definition node256_deleteChild :: "'n node256 \<Rightarrow> byte \<Rightarrow> 'n node256" where
  "node256_deleteChild n c =
     (if child256 n c \<noteq> None then
        n\<lparr>child256 := (child256 n)(c := None), size_m := (size_m n + 65535) mod 65536\<rparr>
      else n)"

function node256_shrink_loop :: "'n node256 \<Rightarrow> nat \<Rightarrow> 'n node48 \<Rightarrow> panic + 'n node48" where
  "node256_shrink_loop n c nn =
     (if c < 256 then
        if child256 n (of_nat c) \<noteq> None then
          (case node48_addChild nn (of_nat c) (child256 n (of_nat c)) of
             Inl e \<Rightarrow> Inl e
           | Inr nn' \<Rightarrow> node256_shrink_loop n (c + 1) nn')
        else node256_shrink_loop n (c + 1) nn
      else Inr nn)"
  by pat_completeness auto
termination
  by (relation "measure (\<lambda>(n, c, nn). 256 - c)") auto

declare node256_shrink_loop.simps [simp del]

definition node256_shrink :: "'n node256 \<Rightarrow> panic + 'n node48 option" where
  "node256_shrink n =
     (if size_m n > 48 then Inr None
      else map_sum id Some (node256_shrink_loop n 0 (newNode48 [])))"

function node256_iter_loop :: "'n node256 \<Rightarrow> ('n option \<Rightarrow> 's \<Rightarrow> bool \<times> 's) \<Rightarrow> nat \<Rightarrow> 's \<Rightarrow> 's" where
  "node256_iter_loop n f i s =
     (if i < 256 then
        if child256 n (of_nat i) \<noteq> None then
          (case f (child256 n (of_nat i)) s of
             (continue, s') \<Rightarrow> if \<not> continue then s' else node256_iter_loop n f (i + 1) s')
        else node256_iter_loop n f (i + 1) s
      else s)"
  by pat_completeness auto
termination
  by (relation "measure (\<lambda>(n, f, i, s). 256 - i)") auto

declare node256_iter_loop.simps [simp del]

definition node256_iter :: "'n node256 \<Rightarrow> ('n option \<Rightarrow> 's \<Rightarrow> bool \<times> 's) \<Rightarrow> 's \<Rightarrow> 's" where
  "node256_iter n f s = node256_iter_loop n f 0 s"





subsection \<open>Reading a node: the child behind \<^verbatim>\<open>findChild\<close>, order of iteration, invariants\<close>

text \<open>
  What the pointer returned by \<^verbatim>\<open>findChild(c)\<close> refers to: \<open>None\<close> when \<^verbatim>\<open>findChild\<close>
  returns \<^verbatim>\<open>nil\<close>, otherwise the content of the slot.
\<close>

definition node4_lookup :: "'n node4 \<Rightarrow> byte \<Rightarrow> 'n option option" where
  "node4_lookup n c = map_option (\<lambda>i. child4 n ! i) (node4_findChild n c)"

definition node10_lookup :: "'n node10 \<Rightarrow> byte \<Rightarrow> 'n option option" where
  "node10_lookup n c = map_option (\<lambda>i. child10 n ! i) (node10_findChild n c)"

definition node16_lookup :: "'n node16 \<Rightarrow> byte \<Rightarrow> 'n option option" where
  "node16_lookup n c = map_option (\<lambda>i. child16 n ! i) (node16_findChild n c)"

definition node48_lookup :: "'n node48 \<Rightarrow> byte \<Rightarrow> 'n option option" where
  "node48_lookup n c = map_option (\<lambda>i. child48 n ! i) (node48_findChild n c)"

definition node256_lookup :: "'n node256 \<Rightarrow> byte \<Rightarrow> 'n option option" where
  "node256_lookup n c = map_option (child256 n) (node256_findChild n c)"

text \<open>
  Calling a callback on the elements of a list in order, stopping after the first call
  that returns \<open>False\<close>.
\<close>

fun visit :: "('a \<Rightarrow> 's \<Rightarrow> bool \<times> 's) \<Rightarrow> 'a list \<Rightarrow> 's \<Rightarrow> 's" where
  "visit f [] s = s"
| "visit f (x # xs) s = (case f x s of (continue, s') \<Rightarrow> if continue then visit f xs s' else s')"

text \<open>A callback that records the children it is called with and always goes on.\<close>

definition record_child :: "'a \<Rightarrow> 'a list \<Rightarrow> bool \<times> 'a list" where
  "record_child c s = (True, s @ [c])"

text \<open>The 256 bytes in ascending order.\<close>

definition all_bytes :: "byte list" where
  "all_bytes = map of_nat [0..<256]"

text \<open>The bytes below \<open>c\<close> in ascending order: the values \<^verbatim>\<open>for c := 0; c < ...\<close> has gone through.\<close>

definition bytes_below :: "nat \<Rightarrow> byte list" where
  "bytes_below c = map of_nat [0..<c]"

text \<open>The children of a \<^verbatim>\<open>node48\<close> in ascending order of their discriminator byte.\<close>

definition node48_children_by_byte :: "'n node48 \<Rightarrow> 'n option list" where
  "node48_children_by_byte n =
     map (\<lambda>c. child48 n ! unat (key48 n c - 1)) (filter (\<lambda>c. key48 n c \<noteq> 0) all_bytes)"

text \<open>
  A small node in use: the arrays have the length of the Go array type, \<open>size\<close> is at
  most that length, the first \<open>size\<close> slots hold children and their keys are distinct.
\<close>

definition wf4 :: "'n node4 \<Rightarrow> bool" where
  "wf4 n \<longleftrightarrow> length (child4 n) = 4 \<and> length (key4 n) = 4 \<and> size_m n \<le> 4 \<and>
     (\<forall>i < size_m n. child4 n ! i \<noteq> None) \<and> distinct (take (size_m n) (key4 n))"

definition wf10 :: "'n node10 \<Rightarrow> bool" where
  "wf10 n \<longleftrightarrow> length (child10 n) = 10 \<and> length (key10 n) = 10 \<and> size_m n \<le> 10 \<and>
     (\<forall>i < size_m n. child10 n ! i \<noteq> None) \<and> distinct (take (size_m n) (key10 n))"

definition wf16 :: "'n node16 \<Rightarrow> bool" where
  "wf16 n \<longleftrightarrow> length (child16 n) = 16 \<and> length (key16 n) = 16 \<and> size_m n \<le> 16 \<and>
     (\<forall>i < size_m n. child16 n ! i \<noteq> None) \<and> distinct (take (size_m n) (key16 n))"

text \<open>
  The dispatch-table invariant of a \<^verbatim>\<open>node48\<close>: every entry of the table is 0 or a
  1-indexed position at most \<open>size\<close>, distinct bytes have distinct positions, and the
  non-nil entries of the child array are exactly the first \<open>size\<close>.
\<close>

definition inv48 :: "'n node48 \<Rightarrow> bool" where
  "inv48 n \<longleftrightarrow> length (child48 n) = 48 \<and> size_m n \<le> 48 \<and>
     (\<forall>c. key48 n c = 0 \<or> unat (key48 n c) \<le> size_m n) \<and>
     (\<forall>c d. key48 n c \<noteq> 0 \<and> key48 n c = key48 n d \<longrightarrow> c = d) \<and>
     (\<forall>i<48. (child48 n ! i \<noteq> None) = (i < size_m n))"

text \<open>
  The \<^verbatim>\<open>node48\<close> that holds a child \<open>1\<close> added under the byte \<^verbatim>\<open>B\<close> and then a child \<open>2\<close>
  added under the byte \<^verbatim>\<open>A\<close>.
\<close>

definition node48_B_A :: "nat node48" where
  "node48_B_A =
     \<lparr>prefix = [], size_m = 2, child48 = (replicate 48 None)[0 := Some 1, 1 := Some 2],
      key48 = (\<lambda>c. 0)(0x42 := 1, 0x41 := 2)\<rparr>"

text \<open>The same two children in a \<^verbatim>\<open>node4\<close>, a \<^verbatim>\<open>node10\<close>, a \<^verbatim>\<open>node16\<close> and a \<^verbatim>\<open>node256\<close>.\<close>

definition node4_B_A :: "nat node4" where
  "node4_B_A =
     \<lparr>prefix = [], size_m = 2, child4 = [Some 1, Some 2, None, None],
      key4 = [0x42, 0x41, 0, 0]\<rparr>"

definition node10_B_A :: "nat node10" where
  "node10_B_A =
     \<lparr>prefix = [], size_m = 2, child10 = [Some 1, Some 2, None, None, None, None, None, None, None, None],
      key10 = [0x42, 0x41, 0, 0, 0, 0, 0, 0, 0, 0]\<rparr>"

definition node16_B_A :: "nat node16" where
  "node16_B_A =
     \<lparr>prefix = [], size_m = 2, child16 = [Some 1, Some 2, None, None, None, None, None, None, None, None, None, None, None, None, None, None],
      key16 = [0x42, 0x41, 0, 0, 0, 0, 0, 0, 0, 0, 0, 0, 0, 0, 0, 0]\<rparr>"

definition node256_B_A :: "nat node256" where
  "node256_B_A =
     \<lparr>prefix = [], size_m = 2, child256 = (\<lambda>c. None)(0x42 := Some 1, 0x41 := Some 2)\<rparr>"

text \<open>
  Full nodes with the prefix \<^verbatim>\<open>foo.\<close>, as they are when \<^verbatim>\<open>grow\<close> is called: a \<^verbatim>\<open>node4\<close> with
  children under \<^verbatim>\<open>D\<close>, \<^verbatim>\<open>C\<close>, \<^verbatim>\<open>B\<close>, \<^verbatim>\<open>A\<close>, a \<^verbatim>\<open>node10\<close> with children under the digits and a
  \<^verbatim>\<open>node16\<close> with children under \<^verbatim>\<open>A\<close> to \<^verbatim>\<open>P\<close>. The last one is a \<^verbatim>\<open>node4\<close> that is left with a
  single child.
\<close>

definition node4_full :: "nat node4" where
  "node4_full =
     \<lparr>prefix = b ''foo.'', size_m = 4, child4 = [Some 1, Some 2, Some 3, Some 4],
      key4 = [0x44, 0x43, 0x42, 0x41]\<rparr>"

definition node10_full :: "nat node10" where
  "node10_full =
     \<lparr>prefix = b ''foo.'', size_m = 10,
      child10 = [Some 1, Some 2, Some 3, Some 4, Some 5, Some 6, Some 7, Some 8, Some 9, Some 10],
      key10 = [0x30, 0x31, 0x32, 0x33, 0x34, 0x35, 0x36, 0x37, 0x38, 0x39]\<rparr>"

definition node16_full :: "nat node16" where
  "node16_full =
     \<lparr>prefix = b ''foo.'', size_m = 16,
      child16 = [Some 1, Some 2, Some 3, Some 4, Some 5, Some 6, Some 7, Some 8, Some 9, Some 10, Some 11, Some 12, Some 13, Some 14, Some 15, Some 16],
      key16 = [0x41, 0x42, 0x43, 0x44, 0x45, 0x46, 0x47, 0x48, 0x49, 0x4A, 0x4B, 0x4C, 0x4D, 0x4E, 0x4F, 0x50]\<rparr>"

definition node4_one :: "nat node4" where
  "node4_one =
     \<lparr>prefix = b ''foo.'', size_m = 1, child4 = [Some 7, None, None, None],
      key4 = [0x58, 0, 0, 0]\<rparr>"

text \<open>A \<^verbatim>\<open>node48\<close> in use: the invariant, and every stored child has a byte in the table.\<close>

definition wf48 :: "'n node48 \<Rightarrow> bool" where
  "wf48 n \<longleftrightarrow> inv48 n \<and> (\<forall>i < size_m n. \<exists>c. unat (key48 n c) = i + 1)"

text \<open>A \<^verbatim>\<open>node256\<close> in use: \<open>size\<close> counts the non-nil slots.\<close>

definition wf256 :: "'n node256 \<Rightarrow> bool" where
  "wf256 n \<longleftrightarrow> size_m n = length (filter (\<lambda>c. child256 n c \<noteq> None) all_bytes)"

section \<open>The tree and \<^verbatim>\<open>Insert\<close>\<close>

text \<open>
  Modelled from the spec: the tree type \<^verbatim>\<open>SubjectTree\<close> and its method \<^verbatim>\<open>Insert\<close> are not
  among the sources (only their tests are), so they follow sections 3, 4.2 and 4.3 of the
  specification. A node is a leaf with a suffix and a value, or an internal node with a
  variant class, a prefix and its children, a map from a discriminator byte to a child,
  kept in the order of insertion. The tree has a root, absent when the tree is empty, and
  a count of stored keys.
\<close>

datatype variant = Node4 | Node10 | Node16 | Node48 | Node256

fun capacity :: "variant \<Rightarrow> nat" where
  "capacity Node4 = 4"
| "capacity Node10 = 10"
| "capacity Node16 = 16"
| "capacity Node48 = 48"
| "capacity Node256 = 256"

fun grow_variant :: "variant \<Rightarrow> variant" where
  "grow_variant Node4 = Node10"
| "grow_variant Node10 = Node16"
| "grow_variant Node16 = Node48"
| "grow_variant Node48 = Node256"
| "grow_variant Node256 = Node256"

datatype 'v tnode =
  Leaf "byte list" 'v
| Internal variant "byte list" "(byte \<times> 'v tnode) list"

record 'v subject_tree =
  root :: "'v tnode option"
  tsize :: nat

text \<open>
  Modelled from the spec: \<^verbatim>\<open>is_full\<close> (true at the capacity of the variant, never for
  Node256), the length of the longest common prefix, and the child made for a key
  remainder \<open>r\<close> at a node whose prefix takes \<open>lcp\<close> bytes of it: a leaf with suffix
  \<open>r[lcp+1:]\<close> under the discriminator \<open>r[lcp]\<close> when \<open>r\<close> is longer than \<open>lcp\<close>, else a leaf
  with the empty suffix under the no-pivot byte.
\<close>

definition is_full :: "variant \<Rightarrow> (byte \<times> 'v tnode) list \<Rightarrow> bool" where
  "is_full k kids \<longleftrightarrow> k \<noteq> Node256 \<and> length kids \<ge> capacity k"

fun common_prefix_len :: "byte list \<Rightarrow> byte list \<Rightarrow> nat" where
  "common_prefix_len (x # xs) (y # ys) = (if x = y then Suc (common_prefix_len xs ys) else 0)"
| "common_prefix_len xs ys = 0"

definition leaf_child :: "byte list \<Rightarrow> 'v \<Rightarrow> nat \<Rightarrow> byte \<times> 'v tnode" where
  "leaf_child r v lcp =
     (if length r > lcp then (r ! lcp, Leaf (drop (lcp + 1) r) v) else (noPivot, Leaf [] v))"

definition add_leaf ::
  "variant \<Rightarrow> byte list \<Rightarrow> (byte \<times> 'v tnode) list \<Rightarrow> byte \<times> 'v tnode \<Rightarrow> 'v tnode" where
  "add_leaf k pre kids kid =
     Internal (if is_full k kids then grow_variant k else k) pre (kids @ [kid])"

text \<open>
  Modelled from the spec: step 2 of section 4.3, the descent with the part \<open>r\<close> of the
  subject that is not yet consumed. The result is the node that takes the place of the
  one visited, the previous value and whether an entry was replaced. \<open>insert_child\<close> looks
  for the child under a discriminator and descends into it; \<open>None\<close> means that there is
  no such child.
\<close>

fun insert_node :: "'v tnode \<Rightarrow> byte list \<Rightarrow> 'v \<Rightarrow> 'v tnode \<times> 'v option \<times> bool"
  and insert_child ::
    "(byte \<times> 'v tnode) list \<Rightarrow> byte \<Rightarrow> byte list \<Rightarrow> 'v \<Rightarrow>
       ((byte \<times> 'v tnode) list \<times> 'v option \<times> bool) option" where
  "insert_node (Leaf suffix v0) r v =
     (if r = suffix then (Leaf suffix v, Some v0, True)
      else (Internal Node4 (take (common_prefix_len r suffix) r)
              [leaf_child suffix v0 (common_prefix_len r suffix),
               leaf_child r v (common_prefix_len r suffix)],
            None, False))"
| "insert_node (Internal k pre kids) r v =
     (if common_prefix_len r pre < length pre then
        (Internal Node4 (take (common_prefix_len r pre) pre)
           [(pre ! common_prefix_len r pre, Internal k (drop (common_prefix_len r pre + 1) pre) kids),
            leaf_child r v (common_prefix_len r pre)],
         None, False)
      else
        (case insert_child kids (fst (leaf_child r v (length pre)))
                (drop (length pre + 1) r) v of
           Some (kids', old, updated) \<Rightarrow> (Internal k pre kids', old, updated)
         | None \<Rightarrow> (add_leaf k pre kids (leaf_child r v (length pre)), None, False)))"
| "insert_child [] d tl_r v = None"
| "insert_child ((c, n) # kids) d tl_r v =
     (if c = d then
        (case insert_node n tl_r v of (n', old, updated) \<Rightarrow> Some ((c, n') # kids, old, updated))
      else
        (case insert_child kids d tl_r v of
           None \<Rightarrow> None
         | Some (kids', old, updated) \<Rightarrow> Some ((c, n) # kids', old, updated)))"

text \<open>
  Modelled from the spec: \<^verbatim>\<open>Insert(subject, value)\<close>, steps 0 to 3 of section 4.3. The
  result is the tree after the call, the previous value and the flag \<open>updated\<close>.
\<close>

definition Insert ::
  "'v subject_tree \<Rightarrow> byte list \<Rightarrow> 'v \<Rightarrow> 'v subject_tree \<times> 'v option \<times> bool" where
  "Insert t subject v =
     (if noPivot \<in> set subject then (t, None, False)
      else
        (case root t of
           None \<Rightarrow> (\<lparr>root = Some (Leaf subject v), tsize = tsize t + 1\<rparr>, None, False)
         | Some n \<Rightarrow>
             (case insert_node n subject v of
                (n', old, updated) \<Rightarrow>
                  (\<lparr>root = Some n', tsize = (if updated then tsize t else tsize t + 1)\<rparr>,
                   old, updated))))"

text \<open>The stored entries of a tree: each key with its value.\<close>

fun entries_node :: "byte list \<Rightarrow> 'v tnode \<Rightarrow> (byte list \<times> 'v) list"
  and entries_kids :: "byte list \<Rightarrow> (byte \<times> 'v tnode) list \<Rightarrow> (byte list \<times> 'v) list" where
  "entries_node path (Leaf suffix v) = [(path @ suffix, v)]"
| "entries_node path (Internal k pre kids) = entries_kids (path @ pre) kids"
| "entries_kids path [] = []"
| "entries_kids path ((c, n) # kids) =
     entries_node (if c = noPivot then path else path @ [c]) n @ entries_kids path kids"

definition entries :: "'v subject_tree \<Rightarrow> (byte list \<times> 'v) list" where
  "entries t = (case root t of None \<Rightarrow> [] | Some n \<Rightarrow> entries_node [] n)"

definition NewSubjectTree :: "'v subject_tree" where
  "NewSubjectTree = \<lparr>root = None, tsize = 0\<rparr>"


section \<open>Properties of \<^verbatim>\<open>genParts\<close>\<close>

lemma genParts_body_idle:
  assumes "\<forall>j<length filt. \<not> entire_token_wildcard filt j" and "i < length filt"
  shows "genParts_body filt i start parts = (i, start, parts)"
proof -
  have a: "\<not> entire_token_wildcard filt i"
    using assms by simp
  have c: "\<not> entire_token_wildcard filt (i + 1)"
  proof (cases "i + 1 < length filt")
    case True
    with assms(1) show ?thesis by blast
  next
    case False
    then show ?thesis by (simp add: entire_token_wildcard_def)
  qed
  have n1: "\<not> (i < length filt - 1 \<and> filt ! (i + 1) = pwc \<and>
              (i + 2 \<le> length filt - 1 \<and> filt ! (i + 2) = tsep \<or> i + 1 = length filt - 1))"
    if "filt ! i = tsep"
    using c that unfolding entire_token_wildcard_def by auto
  have n2: "\<not> (i < length filt - 1 \<and> filt ! (i + 1) = fwc \<and> i + 1 = length filt - 1)"
    if "filt ! i = tsep"
    using c that unfolding entire_token_wildcard_def by auto
  have n3: "(i \<ge> 1 \<and> filt ! (i - 1) \<noteq> tsep) \<or>
            (i + 1 = length filt - 1 \<or> i + 1 < length filt - 1 \<and> filt ! (i + 1) \<noteq> tsep)"
    if "filt ! i = pwc \<or> filt ! i = fwc"
    using a that assms(2) unfolding entire_token_wildcard_def by auto
  show ?thesis
  proof (cases "filt ! i = tsep")
    case True
    with n1 n2 show ?thesis
      by (simp add: genParts_body_def Let_def)
  next
    case False
    show ?thesis
    proof (cases "filt ! i = pwc \<or> filt ! i = fwc")
      case w: True
      from n3 [OF w] False w show ?thesis
        unfolding genParts_body_def Let_def by (simp only: if_False if_True) presburger
    next
      case w: False
      with False show ?thesis
        by (simp add: genParts_body_def Let_def)
    qed
  qed
qed

lemma genParts_loop_idle:
  assumes "\<forall>j<length filt. \<not> entire_token_wildcard filt j"
  shows "genParts_loop filt i start parts = (start, parts)"
  using assms
proof (induction "length filt - i" arbitrary: i rule: less_induct)
  case less
  show ?case
  proof (cases "i < length filt")
    case True
    then have "genParts_loop filt i start parts = genParts_loop filt (i + 1) start parts"
      using genParts_body_idle [OF less.prems True, of start parts]
      by (subst genParts_loop.simps) simp
    also have "\<dots> = (start, parts)"
      using True less.prems by (intro less.hyps) simp_all
    finally show ?thesis .
  next
    case False
    then show ?thesis
      by (subst genParts_loop.simps) simp
  qed
qed

text \<open>
  Claim C1, as amended. For every filter in which no byte is a wildcard by the
  entire-token rule, \<^verbatim>\<open>genParts(filter, nil)\<close> returns exactly one literal part equal to the
  whole filter, provided the filter is not empty and does not begin with the token
  separator. An empty filter gives no part, and a filter that begins with the token
  separator gives the single part that is the filter without this first byte.
\<close>

theorem genParts_no_wildcard:
  assumes "\<forall>i<length filt. \<not> entire_token_wildcard filt i"
  shows "genParts filt [] =
           (if filt = [] then [] else if filt ! 0 = tsep then [drop 1 filt] else [filt])"
  using genParts_loop_idle [OF assms, of 0 0 "[]"]
  by (simp add: genParts_def)

theorem genParts_no_wildcard_witness:
  "\<not> (\<exists>i<length (b ''foo.bar''). entire_token_wildcard (b ''foo.bar'') i) \<and>
   genParts (b ''foo.bar'') [] = [b ''foo.bar'']"
proof -
  have h: "\<forall>i<length (b ''foo.bar''). \<not> entire_token_wildcard (b ''foo.bar'') i"
    by (simp add: b_def entire_token_wildcard_def pwc_def fwc_def tsep_def nth_Cons split: nat.split)
  show ?thesis
    using h genParts_no_wildcard [OF h] by (simp add: b_def tsep_def)
qed

text \<open>
  The claim as it is stated fails for the filter \<^verbatim>\<open>.a\<close>, which has no wildcard byte at
  all: the only part returned is \<^verbatim>\<open>a\<close>.
\<close>

theorem genParts_leading_separator_counterexample:
  "length (b ''.a'') = 2 \<and>
   \<not> entire_token_wildcard (b ''.a'') 0 \<and> \<not> entire_token_wildcard (b ''.a'') 1 \<and>
   genParts (b ''.a'') [] = [b ''a''] \<and> genParts (b ''.a'') [] \<noteq> [b ''.a'']"
  by (simp add: genParts_def genParts_loop.simps genParts_body_def b_def
      entire_token_wildcard_def tsep_def pwc_def fwc_def subslice_def nth_Cons split: nat.split)



















section \<open>Properties of \<^verbatim>\<open>matchParts\<close>\<close>

lemma IndexByte_None: "IndexByte xs c = None \<longleftrightarrow> c \<notin> set xs"
  by (induction xs) auto

lemma IndexByte_first:
  "k < length xs \<Longrightarrow> xs ! k = c \<Longrightarrow> \<forall>j<k. xs ! j \<noteq> c \<Longrightarrow> IndexByte xs c = Some k"
proof (induction xs arbitrary: k)
  case Nil
  then show ?case by simp
next
  case (Cons x xs)
  show ?case
  proof (cases k)
    case 0
    with Cons.prems show ?thesis by simp
  next
    case (Suc k')
    with Cons.prems have "x \<noteq> c" by auto
    moreover have "IndexByte xs c = Some k'"
      using Cons.prems Suc by (intro Cons.IH) auto
    ultimately show ?thesis using Suc by simp
  qed
qed

lemma matchParts_loop_step:
  "i < len s \<Longrightarrow> matchParts_loop h s frag i si =
     (case matchParts_body h s frag i si of
        Return r \<Rightarrow> r | Continue si' \<Rightarrow> matchParts_loop h s frag (i + 1) si')"
  by (subst matchParts_loop.simps) simp

text \<open>
  Claim C3. Let the current part \<open>parts[i]\<close> be the single byte \<^verbatim>\<open>*\<close>. As in section 4.7 of
  the specification, the test \<open>si >= len(frag)\<close> comes before the test for \<^verbatim>\<open>*\<close>: when the scan
  position has reached the end of the fragment, the parts from the current one onward are
  returned with \<open>true\<close>. With the scan position inside the fragment: if the fragment has no
  token separator at or after \<open>si\<close>, \<^verbatim>\<open>matchParts\<close> returns \<open>(nil, true)\<close> when \<^verbatim>\<open>*\<close> is the last
  part and \<open>(parts[i:], true)\<close> otherwise; if the first separator at or after \<open>si\<close> is at
  offset \<open>k\<close>, matching continues with the next part at the scan position \<open>si + k + 1\<close>.
\<close>

theorem matchParts_pwc:
  assumes "i < len s" and "part_at h s i = [pwc]"
  shows "(length frag \<le> si \<longrightarrow>
            matchParts_loop h s frag i si = (h, Some (reslice s i), True)) \<and>
         (si < length frag \<and> tsep \<notin> set (drop si frag) \<longrightarrow>
            matchParts_loop h s frag i si =
              (if i = len s - 1 then (h, None, True) else (h, Some (reslice s i), True))) \<and>
         (\<forall>k. si + k < length frag \<and> frag ! (si + k) = tsep \<and> (\<forall>j<k. frag ! (si + j) \<noteq> tsep) \<longrightarrow>
            matchParts_loop h s frag i si = matchParts_loop h s frag (i + 1) (si + k + 1))"
proof (intro conjI impI allI)
  assume "length frag \<le> si"
  with assms(1) show "matchParts_loop h s frag i si = (h, Some (reslice s i), True)"
    by (simp add: matchParts_loop_step matchParts_body_def)
next
  assume a: "si < length frag \<and> tsep \<notin> set (drop si frag)"
  then have "IndexByte (drop si frag) tsep = None"
    by (simp add: IndexByte_None)
  with assms a show "matchParts_loop h s frag i si =
      (if i = len s - 1 then (h, None, True) else (h, Some (reslice s i), True))"
    by (simp add: matchParts_loop_step matchParts_body_def)
next
  fix k
  assume k: "si + k < length frag \<and> frag ! (si + k) = tsep \<and> (\<forall>j<k. frag ! (si + j) \<noteq> tsep)"
  have "IndexByte (drop si frag) tsep = Some k"
  proof (rule IndexByte_first)
    show "k < length (drop si frag)" using k by auto
    show "drop si frag ! k = tsep" using k by simp
    show "\<forall>j<k. drop si frag ! j \<noteq> tsep" using k by simp
  qed
  with assms k show "matchParts_loop h s frag i si = matchParts_loop h s frag (i + 1) (si + k + 1)"
    by (simp add: matchParts_loop_step matchParts_body_def)
qed

theorem matchParts_pwc_witness:
  "part_at [[b ''*'', b ''x'']] \<lparr>arr = 0, off = 0, len = 2\<rparr> 0 = [pwc] \<and>
   tsep \<notin> set (drop 0 (b ''abc'')) \<and>
   matchParts_loop [[b ''*'', b ''x'']] \<lparr>arr = 0, off = 0, len = 2\<rparr> (b ''abc'') 0 0 =
     ([[b ''*'', b ''x'']], Some \<lparr>arr = 0, off = 0, len = 2\<rparr>, True) \<and>
   b ''ab.c'' ! (0 + 2) = tsep \<and>
   matchParts_loop [[b ''*'', b ''x'']] \<lparr>arr = 0, off = 0, len = 2\<rparr> (b ''ab.c'') 0 0 =
     matchParts_loop [[b ''*'', b ''x'']] \<lparr>arr = 0, off = 0, len = 2\<rparr> (b ''ab.c'') 1 3 \<and>
   part_at [[b ''*'', b ''*'']] \<lparr>arr = 0, off = 0, len = 2\<rparr> 1 = [pwc] \<and>
   length (b ''a.'') \<le> 2 \<and>
   matchParts_loop [[b ''*'', b ''*'']] \<lparr>arr = 0, off = 0, len = 2\<rparr> (b ''a.'') 1 2 =
     ([[b ''*'', b ''*'']], Some \<lparr>arr = 0, off = 1, len = 1\<rparr>, True)"
proof -
  let ?h = "[[b ''*'', b ''x'']]"
  let ?s = "\<lparr>arr = 0, off = 0, len = 2\<rparr>"
  have p: "part_at ?h ?s 0 = [pwc]"
    by (simp add: part_at_def b_def pwc_def)
  have l: "(0::nat) < len ?s"
    by simp
  have n: "tsep \<notin> set (drop 0 (b ''abc''))"
    by (simp add: b_def tsep_def)
  have k: "0 + 2 < length (b ''ab.c'') \<and> b ''ab.c'' ! (0 + 2) = tsep \<and>
           (\<forall>j<2. b ''ab.c'' ! (0 + j) \<noteq> tsep)"
    by (simp add: b_def tsep_def nth_Cons split: nat.split)
  have a: "matchParts_loop ?h ?s (b ''abc'') 0 0 = (?h, Some ?s, True)"
    using matchParts_pwc [OF l p, of "b ''abc''" 0] n
    by (simp add: b_def reslice_def)
  have c: "matchParts_loop ?h ?s (b ''ab.c'') 0 0 = matchParts_loop ?h ?s (b ''ab.c'') 1 3"
  proof -
    have "\<forall>k. 0 + k < length (b ''ab.c'') \<and> b ''ab.c'' ! (0 + k) = tsep \<and>
            (\<forall>j<k. b ''ab.c'' ! (0 + j) \<noteq> tsep) \<longrightarrow>
          matchParts_loop ?h ?s (b ''ab.c'') 0 0 = matchParts_loop ?h ?s (b ''ab.c'') (0 + 1) (0 + k + 1)"
      using matchParts_pwc [OF l p, of "b ''ab.c''" 0] by blast
    from this [rule_format, of 2, OF k] show ?thesis by (simp add: eval_nat_numeral)
  qed
  let ?h2 = "[[b ''*'', b ''*'']]"
  have p2: "part_at ?h2 ?s 1 = [pwc]"
    by (simp add: part_at_def b_def pwc_def)
  have l2: "(1::nat) < len ?s"
    by simp
  have g: "length (b ''a.'') \<le> 2"
    by (simp add: b_def)
  have e: "matchParts_loop ?h2 ?s (b ''a.'') 1 2 = (?h2, Some \<lparr>arr = 0, off = 1, len = 1\<rparr>, True)"
    using matchParts_pwc [OF l2 p2, of "b ''a.''" 2] g
    by (simp add: reslice_def)
  from p n a k c p2 g e show ?thesis by simp
qed

text \<open>
  Claim C4, as amended. Whenever a literal part agrees with the fragment up to the last
  byte of the fragment and the part is not fully consumed, \<^verbatim>\<open>matchParts\<close> returns
  \<open>ok = true\<close> and a slice of a freshly allocated copy of the parts, in which the current
  part is replaced by its remainder: the part without the prefix that was consumed. The
  returned sequence starts at this remainder and goes on with the parts after it. No
  array that existed before the call is changed.
\<close>

theorem matchParts_literal_split:
  assumes "valid_slice h s" and "i < len s" and "si < length frag"
    and "\<not> (length (part_at h s i) = 1 \<and> (part_at h s i ! 0 = pwc \<or> part_at h s i ! 0 = fwc))"
    and "length frag < si + length (part_at h s i)"
    and "take (length frag - si) (part_at h s i) = drop si frag"
  shows "\<exists>h' s'. matchParts_loop h s frag i si = (h', Some s', True) \<and>
           arr s' = length h \<and> length h' = length h + 1 \<and>
           (\<forall>a < length h. h' ! a = h ! a) \<and>
           elems h' s' = drop (length frag - si) (part_at h s i) # drop (i + 1) (elems h s)"
proof -
  let ?p = "part_at h s i"
  let ?lf = "length frag"
  let ?h' = "h @ [(elems h s)[i := drop (?lf - si) ?p]]"
  let ?s' = "\<lparr>arr = length h, off = i, len = len s - i\<rparr>"
  have le: "length (elems h s) = len s"
    using assms(1) by (auto simp: elems_def valid_slice_def)
  have pe: "elems h s ! i = ?p"
    using assms(1,2) by (auto simp: elems_def part_at_def valid_slice_def)
  have mn: "min (si + length ?p) ?lf = ?lf"
    using assms(5) by simp
  have body: "matchParts_body h s frag i si = Return (?h', Some ?s', True)"
    using assms(3,4,5,6) pe
    by (simp add: matchParts_body_def Let_def mn subslice_def copy_parts_def set_part_def
        reslice_def part_at_def)
  have res: "matchParts_loop h s frag i si = (?h', Some ?s', True)"
    using assms(2) body by (simp add: matchParts_loop_step)
  have el: "elems ?h' ?s' = drop (?lf - si) ?p # drop (i + 1) (elems h s)"
    using assms(2) le
    by (simp add: elems_def Cons_nth_drop_Suc [symmetric] upd_conv_take_nth_drop)
  have old: "\<forall>a < length h. ?h' ! a = h ! a"
    by (simp add: nth_append)
  from res el old show ?thesis
    by (intro exI [of _ ?h'] exI [of _ ?s']) simp
qed

theorem matchParts_literal_split_witness:
  "valid_slice [[b ''foo.bar'']] \<lparr>arr = 0, off = 0, len = 1\<rparr> \<and>
   take (length (b ''foo.ba'') - 0) (part_at [[b ''foo.bar'']] \<lparr>arr = 0, off = 0, len = 1\<rparr> 0) =
     drop 0 (b ''foo.ba'') \<and>
   (\<exists>h' s'. matchParts_loop [[b ''foo.bar'']] \<lparr>arr = 0, off = 0, len = 1\<rparr> (b ''foo.ba'') 0 0 =
              (h', Some s', True) \<and>
            arr s' = 1 \<and> length h' = 2 \<and> h' ! 0 = [b ''foo.bar''] \<and> elems h' s' = [b ''r''])"
proof -
  let ?h = "[[b ''foo.bar'']]"
  let ?s = "\<lparr>arr = 0, off = 0, len = 1\<rparr>"
  have v: "valid_slice ?h ?s"
    by (simp add: valid_slice_def)
  have p: "part_at ?h ?s 0 = b ''foo.bar''"
    by (simp add: part_at_def)
  have t: "take (length (b ''foo.ba'') - 0) (part_at ?h ?s 0) = drop 0 (b ''foo.ba'')"
    by (simp add: part_at_def b_def)
  have e: "elems ?h ?s = [b ''foo.bar'']"
    by (simp add: elems_def)
  have "\<exists>h' s'. matchParts_loop ?h ?s (b ''foo.ba'') 0 0 = (h', Some s', True) \<and>
           arr s' = length ?h \<and> length h' = length ?h + 1 \<and>
           (\<forall>a < length ?h. h' ! a = ?h ! a) \<and>
           elems h' s' = drop (length (b ''foo.ba'') - 0) (part_at ?h ?s 0) # drop (0 + 1) (elems ?h ?s)"
  proof (rule matchParts_literal_split [OF v _ _ _ _ t])
    show "0 < len ?s" by simp
    show "0 < length (b ''foo.ba'')" by (simp add: b_def)
    show "\<not> (length (part_at ?h ?s 0) = 1 \<and>
             (part_at ?h ?s 0 ! 0 = pwc \<or> part_at ?h ?s 0 ! 0 = fwc))"
      by (simp add: part_at_def b_def)
    show "length (b ''foo.ba'') < 0 + length (part_at ?h ?s 0)"
      by (simp add: part_at_def b_def)
  qed
  then obtain h' s' where r: "matchParts_loop ?h ?s (b ''foo.ba'') 0 0 = (h', Some s', True)"
    and "arr s' = length ?h" and "length h' = length ?h + 1"
    and "\<forall>a < length ?h. h' ! a = ?h ! a"
    and "elems h' s' =
      drop (length (b ''foo.ba'') - 0) (part_at ?h ?s 0) # drop (0 + 1) (elems ?h ?s)"
    by blast
  then have "arr s' = 1 \<and> length h' = 2 \<and> h' ! 0 = [b ''foo.bar''] \<and> elems h' s' = [b ''r'']"
    by (simp add: part_at_def elems_def b_def)
  with r v t show ?thesis by blast
qed

text \<open>
  The claim as it is stated has the current part cut down to the prefix that was
  consumed. With the part \<^verbatim>\<open>foo.bar\<close> and the fragment \<^verbatim>\<open>foo.ba\<close> the part returned is \<^verbatim>\<open>r\<close>,
  not \<^verbatim>\<open>foo.ba\<close>.
\<close>

theorem matchParts_literal_split_counterexample:
  "matchParts_v [b ''foo.bar''] (b ''foo.ba'') = ([b ''r''], True) \<and>
   fst (matchParts_v [b ''foo.bar''] (b ''foo.ba'')) \<noteq> [take 6 (b ''foo.bar'')]"
  by (simp add: matchParts_def matchParts_v_def matchParts_loop.simps matchParts_body_def
      part_at_def reslice_def elems_def b_def pwc_def fwc_def tsep_def subslice_def
      copy_parts_def set_part_def Let_def)


section \<open>Properties of the internal nodes\<close>

subsection \<open>Bytes as numbers\<close>

lemma unat_of_nat_byte: "i < 256 \<Longrightarrow> unat (of_nat i :: byte) = i"
  by (simp add: unat_of_nat)

lemma byte_eq_unat: "(x :: byte) = y \<longleftrightarrow> unat x = unat y"
  by (simp add: word_unat_eq_iff)

lemma unat_byte_lt: "unat (x :: byte) < 256"
  using unsigned_less [of x, where 'a = nat] by simp

subsection \<open>The dispatch table of \<^verbatim>\<open>node48\<close>\<close>

lemma inv48_newNode48: "inv48 (newNode48 pre)"
  by (simp add: inv48_def newNode48_def setPrefix_def)

lemma node48_lookup_eq:
  "node48_lookup n c = (if key48 n c = 0 then None else Some (child48 n ! (unat (key48 n c) - 1)))"
  by (simp add: node48_lookup_def node48_findChild_def Let_def unat_minus_one)

lemma inv48_addChild:
  assumes inv: "inv48 n" and nf: "size_m n < 48" and free: "key48 n c = 0" and nn: "nn \<noteq> None"
  shows "\<exists>n'. node48_addChild n c nn = Inr n' \<and> inv48 n' \<and> size_m n' = size_m n + 1 \<and>
           prefix n' = prefix n \<and>
           node48_lookup n' c = Some nn \<and> (\<forall>d. d \<noteq> c \<longrightarrow> node48_lookup n' d = node48_lookup n d)"
proof -
  define k :: byte where "k = of_nat (size_m n + 1)"
  define n' where "n' = n\<lparr>child48 := (child48 n)[size_m n := nn],
                key48 := (key48 n)(c := k), size_m := size_m n + 1\<rparr>"
  from inv have len: "length (child48 n) = 48"
    by (simp add: inv48_def)
  from inv have rng: "key48 n d = 0 \<or> unat (key48 n d) \<le> size_m n" for d
    unfolding inv48_def by blast
  from inv have inj: "d = e" if "key48 n d \<noteq> 0" and "key48 n d = key48 n e" for d e
    using that unfolding inv48_def by blast
  from inv have ch: "(child48 n ! i \<noteq> None) = (i < size_m n)" if "i < 48" for i
    using that unfolding inv48_def by blast
  have u: "unat k = size_m n + 1"
    unfolding k_def using nf by (intro unat_of_nat_byte) simp
  have nz: "k \<noteq> 0"
  proof
    assume "k = 0"
    then have "unat k = 0" by simp
    with u show False by simp
  qed
  have neq: "key48 n d \<noteq> k" for d
  proof
    assume e: "key48 n d = k"
    then have "unat (key48 n d) = size_m n + 1" "key48 n d \<noteq> 0"
      using u nz by simp_all
    with rng [of d] show False by linarith
  qed
  have res: "node48_addChild n c nn = Inr n'"
    using nf by (simp add: node48_addChild_def n'_def k_def)
  have sel: "child48 n' = (child48 n)[size_m n := nn]" "size_m n' = size_m n + 1"
    "prefix n' = prefix n" "key48 n' c = k"
    by (simp_all add: n'_def)
  have ko: "key48 n' x = key48 n x" if "x \<noteq> c" for x
    using that by (simp add: n'_def)
  have r1: "key48 n' d = 0 \<or> unat (key48 n' d) \<le> size_m n'" for d
  proof (cases "d = c")
    case True
    then show ?thesis using u sel by simp
  next
    case False
    then show ?thesis using rng [of d] ko [of d] sel(2) by auto
  qed
  have r2: "d = e" if a: "key48 n' d \<noteq> 0" and b: "key48 n' d = key48 n' e" for d e
  proof (cases "d = c"; cases "e = c")
    assume "d = c" "e \<noteq> c"
    with b sel(4) ko [of e] have "key48 n e = k" by simp
    with neq [of e] show ?thesis by (rule notE)
  next
    assume "d \<noteq> c" "e = c"
    with b sel(4) ko [of d] have "key48 n d = k" by simp
    with neq [of d] show ?thesis by (rule notE)
  next
    assume "d \<noteq> c" "e \<noteq> c"
    with a b ko [of d] ko [of e] have "key48 n d \<noteq> 0" "key48 n d = key48 n e" by simp_all
    then show ?thesis by (rule inj)
  qed simp
  have r3: "(child48 n' ! i \<noteq> None) = (i < size_m n')" if "i < 48" for i
  proof (cases "i = size_m n")
    case True
    then show ?thesis using nn len nf sel by simp
  next
    case False
    then show ?thesis using that ch [of i] len sel by (simp add: less_Suc_eq)
  qed
  have i1: "inv48 n'"
    unfolding inv48_def using r1 r2 r3 len nf sel(1,2) by auto
  have l1: "node48_lookup n' c = Some nn"
    using nz u len nf sel by (simp add: node48_lookup_eq)
  have l2: "node48_lookup n' d = node48_lookup n d" if "d \<noteq> c" for d
  proof (cases "key48 n d = 0")
    case True
    with that ko [of d] show ?thesis by (simp add: node48_lookup_eq)
  next
    case False
    then have "unat (key48 n d) \<noteq> 0"
      by (simp add: byte_eq_unat)
    with rng [of d] False have "unat (key48 n d) - 1 < size_m n"
      by linarith
    with that False ko [of d] sel(1) show ?thesis
      by (simp add: node48_lookup_eq nth_list_update)
  qed
  have "node48_addChild n c nn = Inr n' \<and> inv48 n' \<and> size_m n' = size_m n + 1 \<and>
      prefix n' = prefix n \<and> node48_lookup n' c = Some nn \<and>
      (\<forall>d. d \<noteq> c \<longrightarrow> node48_lookup n' d = node48_lookup n d)"
    using res i1 l1 l2 sel by simp
  then show ?thesis by (rule exI)
qed


lemma byte_of_nat_unat: "(of_nat (unat x) :: byte) = x"
  by simp

lemma node48_repair_from:
  assumes uniq: "\<And>d e. key d = l1 \<Longrightarrow> key e = l1 \<Longrightarrow> d = e"
    and "ic \<le> 256" and "\<forall>j<ic. key (of_nat j) \<noteq> l1"
  shows "node48_repair key l1 i1 ic = (\<lambda>d. if key d = l1 then i1 else key d)"
  using assms(2,3)
proof (induction "256 - ic" arbitrary: ic)
  case 0
  then have ic: "ic = 256" by simp
  have "key d \<noteq> l1" for d
  proof -
    have "unat d < ic" using ic unat_byte_lt [of d] by simp
    with 0(3) have "key (of_nat (unat d)) \<noteq> l1" by blast
    then show ?thesis by simp
  qed
  then have "(\<lambda>d. if key d = l1 then i1 else key d) = key"
    by (intro ext) simp
  moreover have "node48_repair key l1 i1 ic = key"
    using ic by (subst node48_repair.simps) simp
  ultimately show ?case by simp
next
  case (Suc m)
  then have lt: "ic < 256" by simp
  show ?case
  proof (cases "key (of_nat ic) = l1")
    case True
    have "key(of_nat ic := i1) = (\<lambda>d. if key d = l1 then i1 else key d)"
    proof (rule ext)
      fix d
      show "(key(of_nat ic := i1)) d = (if key d = l1 then i1 else key d)"
      proof (cases "key d = l1")
        case kd: True
        from uniq [OF kd True] show ?thesis using kd by simp
      next
        case kd: False
        with True have "d \<noteq> of_nat ic" by auto
        with kd show ?thesis by simp
      qed
    qed
    moreover have "node48_repair key l1 i1 ic = key(of_nat ic := i1)"
      using lt True by (subst node48_repair.simps) simp
    ultimately show ?thesis by simp
  next
    case False
    have "node48_repair key l1 i1 ic = node48_repair key l1 i1 (Suc ic)"
      using lt False by (subst node48_repair.simps) simp
    also have "\<dots> = (\<lambda>d. if key d = l1 then i1 else key d)"
    proof (rule Suc.hyps(1))
      show "m = 256 - Suc ic" using Suc.hyps(2) by simp
      show "Suc ic \<le> 256" using lt by simp
      show "\<forall>j<Suc ic. key (of_nat j) \<noteq> l1"
        using Suc.prems(2) False by (auto simp: less_Suc_eq)
    qed
    finally show ?thesis .
  qed
qed

lemma node48_deleteChild_eq:
  assumes inv: "inv48 n" and kz: "key48 n c \<noteq> 0"
  shows "node48_deleteChild n c =
     n\<lparr>child48 :=
          (if unat (key48 n c) < size_m n
           then (child48 n)[unat (key48 n c) - 1 := child48 n ! (size_m n - 1)]
           else child48 n)[size_m n - 1 := None],
       key48 :=
          (\<lambda>d. if d = c then 0
               else if unat (key48 n c) < size_m n \<and> unat (key48 n d) = size_m n then key48 n c
               else key48 n d),
       size_m := size_m n - 1\<rparr>"
proof -
  define k where "k = key48 n c"
  define i :: byte where "i = k - 1"
  define sz where "sz = size_m n"
  define last :: byte where "last = of_nat (sz - 1)"
  from inv have szle: "sz \<le> 48"
    by (simp add: inv48_def sz_def)
  from inv have rng: "key48 n d = 0 \<or> unat (key48 n d) \<le> sz" for d
    unfolding inv48_def sz_def by blast
  from inv have inj: "d = e" if "key48 n d \<noteq> 0" and "key48 n d = key48 n e" for d e
    using that unfolding inv48_def by blast
  have knz: "k \<noteq> 0" using kz by (simp add: k_def)
  then have uk0: "unat k \<noteq> 0" by (simp add: byte_eq_unat)
  have uk: "unat k \<le> sz" using rng [of c] kz by (simp add: k_def)
  have sz1: "1 \<le> sz" using uk uk0 by linarith
  have md: "(sz + 65535) mod 65536 = sz - 1"
  proof -
    have "sz + 65535 = (sz - 1) + 65536" using sz1 by linarith
    then have "(sz + 65535) mod 65536 = ((sz - 1) + 65536) mod 65536" by (rule arg_cong)
    also have "\<dots> = (sz - 1) mod 65536" by (rule mod_add_self2)
    also have "\<dots> = sz - 1" using szle by simp
    finally show ?thesis .
  qed
  have ui: "unat i = unat k - 1"
    unfolding i_def using knz by (rule unat_minus_one)
  have ul: "unat last = sz - 1"
    unfolding last_def using szle by (intro unat_of_nat_byte) simp
  have il: "(i < last) = (unat k < sz)"
    using ui ul uk0 sz1 by (simp add: word_less_nat_alt) linarith
  have i1: "i + 1 = k"
    by (simp add: i_def)
  have ul1: "unat (last + 1) = sz"
  proof -
    have "last + 1 = of_nat (unat last + unat (1 :: byte))"
      by (rule word_arith_nat_add)
    also have "\<dots> = of_nat sz" using ul sz1 by simp
    finally have "last + 1 = of_nat sz" .
    then show ?thesis using szle by (simp add: unat_of_nat_byte)
  qed
  have l1eq: "(key48 n d = last + 1) = (unat (key48 n d) = sz)" for d
    using ul1 by (simp add: byte_eq_unat)
  have uniq: "d = e" if "key48 n d = last + 1" and "key48 n e = last + 1" for d e
  proof (rule inj)
    have "unat (key48 n d) = sz" using that(1) l1eq by simp
    with sz1 show "key48 n d \<noteq> 0" by (auto simp: byte_eq_unat)
    show "key48 n d = key48 n e" using that by simp
  qed
  have rep: "node48_repair (key48 n) (last + 1) (i + 1) 0 =
      (\<lambda>d. if unat (key48 n d) = sz then k else key48 n d)"
    unfolding i1 using node48_repair_from [of "key48 n" "last + 1" 0 k] uniq
    by (simp add: l1eq)
  note lit = md [unfolded sz_def] il [unfolded i_def last_def k_def sz_def]
    ui [unfolded i_def k_def] ul [unfolded last_def sz_def]
    rep [unfolded i_def last_def k_def sz_def]
  have step: "node48_deleteChild n c =
     (if unat (key48 n c) < size_m n
      then n\<lparr>child48 := (child48 n)[unat (key48 n c) - 1 := child48 n ! (size_m n - 1)],
             key48 := (\<lambda>d. if unat (key48 n d) = size_m n then key48 n c else key48 n d)\<rparr>
      else n)
     \<lparr>child48 :=
        (child48 (if unat (key48 n c) < size_m n
           then n\<lparr>child48 := (child48 n)[unat (key48 n c) - 1 := child48 n ! (size_m n - 1)],
                  key48 := (\<lambda>d. if unat (key48 n d) = size_m n then key48 n c else key48 n d)\<rparr>
           else n))[size_m n - 1 := None],
      key48 :=
        (key48 (if unat (key48 n c) < size_m n
           then n\<lparr>child48 := (child48 n)[unat (key48 n c) - 1 := child48 n ! (size_m n - 1)],
                  key48 := (\<lambda>d. if unat (key48 n d) = size_m n then key48 n c else key48 n d)\<rparr>
           else n))(c := 0),
      size_m :=
        (size_m (if unat (key48 n c) < size_m n
           then n\<lparr>child48 := (child48 n)[unat (key48 n c) - 1 := child48 n ! (size_m n - 1)],
                  key48 := (\<lambda>d. if unat (key48 n d) = size_m n then key48 n c else key48 n d)\<rparr>
           else n) + 65535) mod 65536\<rparr>"
    unfolding node48_deleteChild_def Let_def
    by (simp only: lit kz if_False)
  show ?thesis
  proof (cases "unat (key48 n c) < size_m n")
    case True
    then show ?thesis
      unfolding step using lit(1) by (simp add: fun_eq_iff)
  next
    case False
    then show ?thesis
      unfolding step using lit(1) by (simp add: fun_eq_iff)
  qed
qed


lemma inv48_deleteChild_present:
  assumes inv: "inv48 n" and kz: "key48 n c \<noteq> 0"
  shows "inv48 (node48_deleteChild n c) \<and>
         size_m (node48_deleteChild n c) = size_m n - 1 \<and>
         prefix (node48_deleteChild n c) = prefix n \<and>
         node48_lookup (node48_deleteChild n c) c = None \<and>
         (\<forall>d. d \<noteq> c \<longrightarrow> node48_lookup (node48_deleteChild n c) d = node48_lookup n d)"
proof -
  define sz where "sz = size_m n"
  define m where "m = sz - 1"
  define K where "K d = unat (key48 n d)" for d
  define p where "p = K c - 1"
  define cond where "cond \<longleftrightarrow> K c < sz"
  define ch where "ch = child48 n"
  define n' where "n' = node48_deleteChild n c"
  from inv have len: "length ch = 48" and szle: "sz \<le> 48"
    by (simp_all add: inv48_def sz_def ch_def)
  from inv have rng: "key48 n d = 0 \<or> K d \<le> sz" for d
    unfolding inv48_def sz_def K_def by blast
  from inv have inj: "d = e" if "key48 n d \<noteq> 0" and "key48 n d = key48 n e" for d e
    using that unfolding inv48_def by blast
  from inv have chn: "(ch ! j \<noteq> None) = (j < sz)" if "j < 48" for j
    using that unfolding inv48_def sz_def ch_def by blast
  have kz_iff: "(key48 n d = 0) = (K d = 0)" for d
    by (simp add: K_def byte_eq_unat)
  have keq_iff: "(key48 n d = key48 n e) = (K d = K e)" for d e
    by (simp add: K_def byte_eq_unat)
  have Kinj: "d = e" if "K d \<noteq> 0" and "K d = K e" for d e
  proof (rule inj)
    show "key48 n d \<noteq> 0" using that(1) by (simp add: kz_iff)
    show "key48 n d = key48 n e" using that(2) by (simp add: keq_iff)
  qed
  have Kc0: "K c \<noteq> 0" using kz by (simp add: kz_iff)
  have Kc: "K c \<le> sz" using rng [of c] kz by simp
  have sz1: "1 \<le> sz" using Kc Kc0 by linarith
  have m48: "m < 48" using szle sz1 by (simp add: m_def)
  have pm: "p \<le> m" using Kc by (simp add: p_def m_def)
  have cond_pm: "cond = (p < m)"
    using Kc0 sz1 by (auto simp: cond_def p_def m_def)
  have eq: "n' = n\<lparr>child48 := (if cond then ch[p := ch ! m] else ch)[m := None],
       key48 := (\<lambda>d. if d = c then 0 else if cond \<and> K d = sz then key48 n c else key48 n d),
       size_m := m\<rparr>"
    unfolding n'_def node48_deleteChild_eq [OF inv kz] cond_def K_def p_def m_def sz_def ch_def ..
  have s1: "child48 n' = (if cond then ch[p := ch ! m] else ch)[m := None]"
    and s2: "key48 n' d = (if d = c then 0 else if cond \<and> K d = sz then key48 n c else key48 n d)"
    and s3: "size_m n' = m" and s4: "prefix n' = prefix n" for d
    by (simp_all add: eq)
  have K': "unat (key48 n' d) = (if d = c then 0 else if cond \<and> K d = sz then K c else K d)" for d
    by (simp add: s2 K_def)
  have notlast: "K d \<noteq> sz" if "d \<noteq> c" and "\<not> (cond \<and> K d = sz)" for d
  proof
    assume a: "K d = sz"
    with that(2) have "\<not> cond" by simp
    with Kc have "K c = sz" by (simp add: cond_def)
    with a sz1 have "K d \<noteq> 0" "K d = K c" by simp_all
    then have "d = c" by (rule Kinj)
    with that(1) show False by simp
  qed
  have r1: "key48 n' d = 0 \<or> unat (key48 n' d) \<le> size_m n'" for d
  proof (cases "d = c")
    case True
    then show ?thesis by (simp add: s2)
  next
    case dc: False
    show ?thesis
    proof (cases "cond \<and> K d = sz")
      case True
      then have "K c \<le> m" by (auto simp: cond_def m_def)
      with True dc show ?thesis by (auto simp: K' s3)
    next
      case False
      from notlast [OF dc False] rng [of d] have "key48 n d = 0 \<or> K d \<le> m"
        by (auto simp: m_def)
      moreover have "key48 n' d = key48 n d"
        using False dc by (auto simp: s2)
      ultimately show ?thesis by (simp add: s3 K_def)
    qed
  qed
  have r2: "d = e" if a: "key48 n' d \<noteq> 0" and b: "key48 n' d = key48 n' e" for d e
  proof -
    from a have dc: "d \<noteq> c" by (auto simp: s2)
    from a b have ec: "e \<noteq> c" by (auto simp: s2)
    from a have ua: "unat (key48 n' d) \<noteq> 0" by (simp add: byte_eq_unat)
    from b have ub: "unat (key48 n' d) = unat (key48 n' e)" by simp
    show ?thesis
    proof (cases "cond \<and> K d = sz"; cases "cond \<and> K e = sz")
      assume "cond \<and> K d = sz" "cond \<and> K e = sz"
      with sz1 have "K d \<noteq> 0" "K d = K e" by simp_all
      then show ?thesis by (rule Kinj)
    next
      assume "cond \<and> K d = sz" "\<not> (cond \<and> K e = sz)"
      with ub dc ec have "K c = K e" by (auto simp: K')
      with Kc0 have "c = e" by (rule Kinj)
      with ec show ?thesis by simp
    next
      assume "\<not> (cond \<and> K d = sz)" "cond \<and> K e = sz"
      with ub dc ec have "K c = K d" by (auto simp: K')
      with Kc0 have "c = d" by (rule Kinj)
      with dc show ?thesis by simp
    next
      assume "\<not> (cond \<and> K d = sz)" "\<not> (cond \<and> K e = sz)"
      with ua ub dc ec have "K d \<noteq> 0" "K d = K e" by (auto simp: K')
      then show ?thesis by (rule Kinj)
    qed
  qed
  have cm: "ch ! m \<noteq> None"
    using chn [OF m48] sz1 by (simp add: m_def)
  have r3: "(child48 n' ! j \<noteq> None) = (j < size_m n')" if j: "j < 48" for j
  proof (cases "j = m")
    case True
    then show ?thesis using len m48 by (simp add: s1 s3)
  next
    case jm: False
    show ?thesis
    proof (cases "cond \<and> j = p")
      case True
      then have "p < m" using cond_pm by simp
      with True jm len j cm show ?thesis by (simp add: s1 s3)
    next
      case False
      then have "child48 n' ! j = ch ! j"
        using jm by (auto simp: s1)
      moreover have "(j < sz) = (j < m)"
        using jm sz1 by (auto simp: m_def)
      ultimately show ?thesis using chn [OF j] by (simp add: s3)
    qed
  qed
  have i1: "inv48 n'"
    unfolding inv48_def
  proof (intro conjI allI impI)
    show "length (child48 n') = 48" using len by (simp add: s1)
    show "size_m n' \<le> 48" using m48 by (simp add: s3)
    show "key48 n' d = 0 \<or> unat (key48 n' d) \<le> size_m n'" for d by (rule r1)
    show "d = e" if "key48 n' d \<noteq> 0 \<and> key48 n' d = key48 n' e" for d e
    proof (rule r2)
      show "key48 n' d \<noteq> 0" using that by (rule conjunct1)
      show "key48 n' d = key48 n' e" using that by (rule conjunct2)
    qed
    show "(child48 n' ! j \<noteq> None) = (j < size_m n')" if "j < 48" for j
      using that by (rule r3)
  qed
  have l1: "node48_lookup n' c = None"
    by (simp add: node48_lookup_eq s2)
  have l2: "node48_lookup n' d = node48_lookup n d" if dc: "d \<noteq> c" for d
  proof (cases "cond \<and> K d = sz")
    case True
    then have pm': "p < m" using cond_pm by simp
    have "child48 n' ! p = ch ! m"
      using pm' len m48 True by (simp add: s1)
    moreover have "key48 n' d = key48 n c" using True dc by (auto simp: s2)
    moreover have "key48 n d \<noteq> 0" using True sz1 kz_iff [of d] by simp
    moreover have "K d - 1 = m" using True by (simp add: m_def)
    moreover have "K c - 1 = p" by (simp add: p_def)
    ultimately show ?thesis
      using kz by (simp add: node48_lookup_eq K_def [symmetric] ch_def [symmetric])
  next
    case False
    then have k': "key48 n' d = key48 n d" using dc by (auto simp: s2)
    show ?thesis
    proof (cases "key48 n d = 0")
      case True
      with k' show ?thesis by (simp add: node48_lookup_eq)
    next
      case nz: False
      then have Kd0: "K d \<noteq> 0" by (simp add: kz_iff)
      have qm: "K d - 1 \<noteq> m"
        using notlast [OF dc False] Kd0 sz1 by (auto simp: m_def)
      have qp: "K d - 1 \<noteq> p"
      proof
        assume "K d - 1 = p"
        with Kd0 Kc0 have "K d = K c" by (simp add: p_def)
        with Kd0 have "d = c" by (rule Kinj)
        with dc show False by simp
      qed
      have "child48 n' ! (K d - 1) = ch ! (K d - 1)"
        using qm qp by (simp add: s1)
      with k' nz show ?thesis
        by (simp add: node48_lookup_eq K_def [symmetric] ch_def [symmetric])
    qed
  qed
  from i1 s3 s4 l1 l2 show ?thesis
    unfolding n'_def m_def sz_def by simp
qed

lemma node48_deleteChild_absent: "key48 n c = 0 \<Longrightarrow> node48_deleteChild n c = n"
  by (simp add: node48_deleteChild_def)


subsection \<open>Order of iteration\<close>

lemma visit_record_child: "visit record_child xs s = s @ xs"
  by (induction xs arbitrary: s) (simp_all add: record_child_def)

lemma node4_iter_loop_visit:
  assumes "size_m n \<le> length (child4 n)" and "i \<le> size_m n"
  shows "node4_iter_loop n f i s = visit f (drop i (take (size_m n) (child4 n))) s"
  using assms(2)
proof (induction "size_m n - i" arbitrary: i s)
  case 0
  then show ?case
    by (subst node4_iter_loop.simps) simp
next
  case (Suc d)
  then have lt: "i < size_m n" by simp
  with assms(1) have dr: "drop i (take (size_m n) (child4 n)) =
      child4 n ! i # drop (i + 1) (take (size_m n) (child4 n))"
    using Cons_nth_drop_Suc [of i "take (size_m n) (child4 n)"] by simp
  have ih: "node4_iter_loop n f (Suc i) s' =
      visit f (drop (Suc i) (take (size_m n) (child4 n))) s'" for s'
    using Suc.hyps(2) lt Suc.hyps(1) [of "Suc i" s'] by simp
  show ?case
    using lt by (subst node4_iter_loop.simps) (simp add: dr ih split: prod.split)
qed

lemma node4_children_addChild:
  assumes "length (child4 n) = 4" and "node4_addChild n c nn = Inr n'"
  shows "node4_children n' = node4_children n @ [nn]"
proof -
  from assms(2) have lt: "size_m n < 4"
    by (simp add: node4_addChild_def split: if_splits)
  with assms(2) have n': "child4 n' = (child4 n)[size_m n := nn]" "size_m n' = Suc (size_m n)"
    by (auto simp: node4_addChild_def)
  show ?thesis
    using lt assms(1) by (simp add: node4_children_def n' take_Suc_conv_app_nth)
qed

lemma node10_iter_loop_visit:
  assumes "size_m n \<le> length (child10 n)" and "i \<le> size_m n"
  shows "node10_iter_loop n f i s = visit f (drop i (take (size_m n) (child10 n))) s"
  using assms(2)
proof (induction "size_m n - i" arbitrary: i s)
  case 0
  then show ?case
    by (subst node10_iter_loop.simps) simp
next
  case (Suc d)
  then have lt: "i < size_m n" by simp
  with assms(1) have dr: "drop i (take (size_m n) (child10 n)) =
      child10 n ! i # drop (i + 1) (take (size_m n) (child10 n))"
    using Cons_nth_drop_Suc [of i "take (size_m n) (child10 n)"] by simp
  have ih: "node10_iter_loop n f (Suc i) s' =
      visit f (drop (Suc i) (take (size_m n) (child10 n))) s'" for s'
    using Suc.hyps(2) lt Suc.hyps(1) [of "Suc i" s'] by simp
  show ?case
    using lt by (subst node10_iter_loop.simps) (simp add: dr ih split: prod.split)
qed

lemma node10_children_addChild:
  assumes "length (child10 n) = 10" and "node10_addChild n c nn = Inr n'"
  shows "node10_children n' = node10_children n @ [nn]"
proof -
  from assms(2) have lt: "size_m n < 10"
    by (simp add: node10_addChild_def split: if_splits)
  with assms(2) have n': "child10 n' = (child10 n)[size_m n := nn]" "size_m n' = Suc (size_m n)"
    by (auto simp: node10_addChild_def)
  show ?thesis
    using lt assms(1) by (simp add: node10_children_def n' take_Suc_conv_app_nth)
qed

lemma node16_iter_loop_visit:
  assumes "size_m n \<le> length (child16 n)" and "i \<le> size_m n"
  shows "node16_iter_loop n f i s = visit f (drop i (take (size_m n) (child16 n))) s"
  using assms(2)
proof (induction "size_m n - i" arbitrary: i s)
  case 0
  then show ?case
    by (subst node16_iter_loop.simps) simp
next
  case (Suc d)
  then have lt: "i < size_m n" by simp
  with assms(1) have dr: "drop i (take (size_m n) (child16 n)) =
      child16 n ! i # drop (i + 1) (take (size_m n) (child16 n))"
    using Cons_nth_drop_Suc [of i "take (size_m n) (child16 n)"] by simp
  have ih: "node16_iter_loop n f (Suc i) s' =
      visit f (drop (Suc i) (take (size_m n) (child16 n))) s'" for s'
    using Suc.hyps(2) lt Suc.hyps(1) [of "Suc i" s'] by simp
  show ?case
    using lt by (subst node16_iter_loop.simps) (simp add: dr ih split: prod.split)
qed

lemma node16_children_addChild:
  assumes "length (child16 n) = 16" and "node16_addChild n c nn = Inr n'"
  shows "node16_children n' = node16_children n @ [nn]"
proof -
  from assms(2) have lt: "size_m n < 16"
    by (simp add: node16_addChild_def split: if_splits)
  with assms(2) have n': "child16 n' = (child16 n)[size_m n := nn]" "size_m n' = Suc (size_m n)"
    by (auto simp: node16_addChild_def)
  show ?thesis
    using lt assms(1) by (simp add: node16_children_def n' take_Suc_conv_app_nth)
qed

lemma node48_iter_loop_visit:
  assumes "length (child48 n) = 48" and "i \<le> 48"
  shows "node48_iter_loop n f i s = visit f (filter (\<lambda>x. x \<noteq> None) (drop i (child48 n))) s"
  using assms(2)
proof (induction "48 - i" arbitrary: i s)
  case 0
  with assms(1) show ?case
    by (subst node48_iter_loop.simps) simp
next
  case (Suc d)
  then have lt: "i < 48" by simp
  with assms(1) have dr: "drop i (child48 n) = child48 n ! i # drop (i + 1) (child48 n)"
    using Cons_nth_drop_Suc [of i "child48 n"] by simp
  have ih: "node48_iter_loop n f (Suc i) s' =
      visit f (filter (\<lambda>x. x \<noteq> None) (drop (Suc i) (child48 n))) s'" for s'
    using Suc.hyps(2) lt Suc.hyps(1) [of "Suc i" s'] by simp
  show ?case
    using lt by (subst node48_iter_loop.simps) (simp add: dr ih del: not_None_eq split: prod.split)
qed

lemma node256_iter_loop_visit:
  assumes "i \<le> 256"
  shows "node256_iter_loop n f i s =
     visit f (filter (\<lambda>x. x \<noteq> None) (map (child256 n) (map of_nat [i..<256]))) s"
  using assms
proof (induction "256 - i" arbitrary: i s)
  case 0
  then show ?case
    by (subst node256_iter_loop.simps) simp
next
  case (Suc d)
  then have lt: "i < 256" by simp
  then have up: "[i..<256] = i # [i + 1..<256]"
    by (simp add: upt_conv_Cons)
  have ih: "node256_iter_loop n f (Suc i) s' =
      visit f (filter (\<lambda>x. x \<noteq> None) (map (child256 n) (map of_nat [Suc i..<256]))) s'" for s'
    using Suc.hyps(2) lt Suc.hyps(1) [of "Suc i" s'] by simp
  show ?case
    using lt by (subst node256_iter_loop.simps) (simp add: up ih del: not_None_eq split: prod.split)
qed

lemma unat_all_bytes: "map unat all_bytes = [0..<256]"
proof -
  have "map unat all_bytes = map (\<lambda>i. unat (of_nat i :: byte)) [0..<256]"
    by (simp add: all_bytes_def comp_def)
  also have "\<dots> = map (\<lambda>i. i) [0..<256]"
    by (rule map_cong) (simp_all add: unat_of_nat_byte)
  finally show ?thesis by simp
qed

lemma inv48_children:
  assumes "inv48 n"
  shows "filter (\<lambda>x. x \<noteq> None) (child48 n) = node48_children n"
proof -
  from assms have len: "length (child48 n) = 48" and sz: "size_m n \<le> 48"
    and nn: "\<forall>i<48. (child48 n ! i \<noteq> None) = (i < size_m n)"
    by (simp_all add: inv48_def)
  have split: "child48 n = take (size_m n) (child48 n) @ drop (size_m n) (child48 n)"
    by simp
  have a: "filter (\<lambda>x. x \<noteq> None) (take (size_m n) (child48 n)) = take (size_m n) (child48 n)"
    using len sz nn by (auto simp: filter_id_conv in_set_conv_nth)
  have b: "filter (\<lambda>x. x \<noteq> None) (drop (size_m n) (child48 n)) = []"
  proof -
    have "x = None" if "x \<in> set (drop (size_m n) (child48 n))" for x
    proof -
      from that obtain j where j: "j < length (drop (size_m n) (child48 n))"
        and x: "x = drop (size_m n) (child48 n) ! j"
        by (auto simp: in_set_conv_nth)
      from j len have "size_m n + j < 48" by simp
      with nn have "child48 n ! (size_m n + j) = None" by auto
      with x len sz show ?thesis by simp
    qed
    then show ?thesis by (auto simp: filter_empty_conv)
  qed
  have "filter (\<lambda>x. x \<noteq> None) (child48 n) =
      filter (\<lambda>x. x \<noteq> None) (take (size_m n) (child48 n)) @
      filter (\<lambda>x. x \<noteq> None) (drop (size_m n) (child48 n))"
    by (subst split) (simp only: filter_append)
  then show ?thesis
    by (simp only: a b append_Nil2 node48_children_def)
qed

lemma node48_children_addChild:
  assumes "length (child48 n) = 48" and "node48_addChild n c nn = Inr n'"
  shows "node48_children n' = node48_children n @ [nn]"
proof -
  from assms(2) have lt: "size_m n < 48"
    by (simp add: node48_addChild_def split: if_splits)
  with assms(2) have n': "child48 n' = (child48 n)[size_m n := nn]" "size_m n' = Suc (size_m n)"
    by (auto simp: node48_addChild_def)
  show ?thesis
    using lt assms(1) by (simp add: node48_children_def n' take_Suc_conv_app_nth)
qed

lemma node48_B_A_built:
  "node48_addChild (newNode48 []) 0x42 (Some 1) =
     Inr \<lparr>prefix = [], size_m = 1, child48 = (replicate 48 None)[0 := Some (1::nat)],
          key48 = (\<lambda>c. 0)(0x42 := 1)\<rparr>"
  "node48_addChild \<lparr>prefix = [], size_m = 1, child48 = (replicate 48 None)[0 := Some (1::nat)],
          key48 = (\<lambda>c. 0)(0x42 := 1)\<rparr> 0x41 (Some 2) = Inr node48_B_A"
  by (simp_all add: node48_addChild_def newNode48_def setPrefix_def node48_B_A_def)

lemma inv48_node48_B_A: "inv48 node48_B_A"
proof -
  let ?n1 = "\<lparr>prefix = [], size_m = 1, child48 = (replicate 48 None)[0 := Some (1::nat)],
          key48 = (\<lambda>c. 0)(0x42 := 1)\<rparr>"
  have "\<exists>n'. node48_addChild (newNode48 []) 0x42 (Some (1::nat)) = Inr n' \<and> inv48 n' \<and>
      size_m n' = size_m (newNode48 [] :: nat node48) + 1 \<and>
      prefix n' = prefix (newNode48 [] :: nat node48) \<and>
      node48_lookup n' 0x42 = Some (Some 1) \<and>
      (\<forall>d. d \<noteq> 0x42 \<longrightarrow> node48_lookup n' d = node48_lookup (newNode48 []) d)"
    by (rule inv48_addChild [OF inv48_newNode48]) (simp_all add: newNode48_def setPrefix_def)
  then obtain m1 where a1: "node48_addChild (newNode48 []) 0x42 (Some (1::nat)) = Inr m1"
    and b1: "inv48 m1" by blast
  from a1 have "m1 = ?n1"
    unfolding node48_B_A_built(1) by simp
  with b1 have i1: "inv48 ?n1" by simp
  have "\<exists>n'. node48_addChild ?n1 0x41 (Some (2::nat)) = Inr n' \<and> inv48 n' \<and>
      size_m n' = size_m ?n1 + 1 \<and> prefix n' = prefix ?n1 \<and>
      node48_lookup n' 0x41 = Some (Some 2) \<and>
      (\<forall>d. d \<noteq> 0x41 \<longrightarrow> node48_lookup n' d = node48_lookup ?n1 d)"
    by (rule inv48_addChild [OF i1]) simp_all
  then obtain m2 where a2: "node48_addChild ?n1 0x41 (Some (2::nat)) = Inr m2"
    and b2: "inv48 m2" by blast
  from a2 have "m2 = node48_B_A"
    unfolding node48_B_A_built(2) by simp
  with b2 show ?thesis by simp
qed


text \<open>
  Claim C5, as amended. \<^verbatim>\<open>iter(f)\<close> on a Node4, a Node10, a Node16 and also on a Node48
  calls \<open>f\<close> on the children in stored order, the order of the child array, in which
  \<^verbatim>\<open>addChild\<close> puts a new child last. On a Node256 it calls \<open>f\<close> on the children in
  ascending order of their discriminator byte. In every variant the iteration stops as
  soon as the callback returns false.
\<close>

theorem iter_order:
  "(wf4 n4 \<longrightarrow>
      node4_iter n4 f s = visit f (node4_children n4) s \<and>
      (\<forall>c nn n'. node4_addChild n4 c nn = Inr n' \<longrightarrow> node4_children n' = node4_children n4 @ [nn])) \<and>
   (wf10 n10 \<longrightarrow>
      node10_iter n10 f s = visit f (node10_children n10) s \<and>
      (\<forall>c nn n'. node10_addChild n10 c nn = Inr n' \<longrightarrow>
         node10_children n' = node10_children n10 @ [nn])) \<and>
   (wf16 n16 \<longrightarrow>
      node16_iter n16 f s = visit f (node16_children n16) s \<and>
      (\<forall>c nn n'. node16_addChild n16 c nn = Inr n' \<longrightarrow>
         node16_children n' = node16_children n16 @ [nn])) \<and>
   (inv48 n48 \<longrightarrow>
      node48_iter n48 f s = visit f (node48_children n48) s \<and>
      (\<forall>c nn n'. node48_addChild n48 c nn = Inr n' \<longrightarrow>
         node48_children n' = node48_children n48 @ [nn])) \<and>
   node256_iter n256 f s =
     visit f (filter (\<lambda>x. x \<noteq> None) (map (child256 n256) all_bytes)) s \<and>
   map unat all_bytes = [0..<256]"
proof (intro conjI impI allI)
  assume w: "wf4 n4"
  then show "node4_iter n4 f s = visit f (node4_children n4) s"
    using node4_iter_loop_visit [of n4 0 f s]
    by (simp add: wf4_def node4_iter_def node4_children_def)
  show "node4_children n' = node4_children n4 @ [nn]"
    if "node4_addChild n4 c nn = Inr n'" for c nn n'
    using w that by (intro node4_children_addChild [of n4 c nn]) (simp_all add: wf4_def)
next
  assume w: "wf10 n10"
  then show "node10_iter n10 f s = visit f (node10_children n10) s"
    using node10_iter_loop_visit [of n10 0 f s]
    by (simp add: wf10_def node10_iter_def node10_children_def)
  show "node10_children n' = node10_children n10 @ [nn]"
    if "node10_addChild n10 c nn = Inr n'" for c nn n'
    using w that by (intro node10_children_addChild [of n10 c nn]) (simp_all add: wf10_def)
next
  assume w: "wf16 n16"
  then show "node16_iter n16 f s = visit f (node16_children n16) s"
    using node16_iter_loop_visit [of n16 0 f s]
    by (simp add: wf16_def node16_iter_def node16_children_def)
  show "node16_children n' = node16_children n16 @ [nn]"
    if "node16_addChild n16 c nn = Inr n'" for c nn n'
    using w that by (intro node16_children_addChild [of n16 c nn]) (simp_all add: wf16_def)
next
  assume w: "inv48 n48"
  then have len: "length (child48 n48) = 48"
    by (simp add: inv48_def)
  have "node48_iter n48 f s = visit f (filter (\<lambda>x. x \<noteq> None) (child48 n48)) s"
    using node48_iter_loop_visit [OF len, of 0 f s] by (simp add: node48_iter_def)
  then show "node48_iter n48 f s = visit f (node48_children n48) s"
    by (simp only: inv48_children [OF w])
  show "node48_children n' = node48_children n48 @ [nn]"
    if "node48_addChild n48 c nn = Inr n'" for c nn n'
    using len that by (rule node48_children_addChild)
next
  show "node256_iter n256 f s =
      visit f (filter (\<lambda>x. x \<noteq> None) (map (child256 n256) all_bytes)) s"
    using node256_iter_loop_visit [of 0 n256 f s] by (simp add: node256_iter_def all_bytes_def)
  show "map unat all_bytes = [0..<256]"
    by (rule unat_all_bytes)
qed

theorem iter_order_witness:
  "node4_iter node4_B_A record_child [] = [Some 1, Some 2] \<and>
   node10_iter node10_B_A record_child [] = [Some 1, Some 2] \<and>
   node16_iter node16_B_A record_child [] = [Some 1, Some 2] \<and>
   node48_iter node48_B_A record_child [] = [Some 1, Some 2] \<and>
   node256_iter node256_B_A record_child [] = [Some 2, Some 1]"
proof -
  note t = iter_order [of node4_B_A record_child "[]" node10_B_A node16_B_A node48_B_A node256_B_A]
  have w4: "wf4 node4_B_A"
    by (auto simp: wf4_def node4_B_A_def less_Suc_eq numeral_2_eq_2)
  have w10: "wf10 node10_B_A"
    by (auto simp: wf10_def node10_B_A_def less_Suc_eq numeral_2_eq_2)
  have w16: "wf16 node16_B_A"
    by (auto simp: wf16_def node16_B_A_def less_Suc_eq numeral_2_eq_2)
  have c4: "node4_children node4_B_A = [Some 1, Some 2]"
    by code_simp
  have c10: "node10_children node10_B_A = [Some 1, Some 2]"
    by code_simp
  have c16: "node16_children node16_B_A = [Some 1, Some 2]"
    by code_simp
  have c48: "node48_children node48_B_A = [Some 1, Some 2]"
    by code_simp
  have c256: "filter (\<lambda>x. x \<noteq> None) (map (child256 node256_B_A) all_bytes) = [Some 2, Some 1]"
    by code_simp
  from t w4 have "node4_iter node4_B_A record_child [] =
      visit record_child (node4_children node4_B_A) []"
    by blast
  then have r4: "node4_iter node4_B_A record_child [] = [Some 1, Some 2]"
    by (simp only: c4 visit_record_child append_Nil)
  from t w10 have "node10_iter node10_B_A record_child [] =
      visit record_child (node10_children node10_B_A) []"
    by blast
  then have r10: "node10_iter node10_B_A record_child [] = [Some 1, Some 2]"
    by (simp only: c10 visit_record_child append_Nil)
  from t w16 have "node16_iter node16_B_A record_child [] =
      visit record_child (node16_children node16_B_A) []"
    by blast
  then have r16: "node16_iter node16_B_A record_child [] = [Some 1, Some 2]"
    by (simp only: c16 visit_record_child append_Nil)
  from t inv48_node48_B_A have "node48_iter node48_B_A record_child [] =
      visit record_child (node48_children node48_B_A) []"
    by blast
  then have r48: "node48_iter node48_B_A record_child [] = [Some 1, Some 2]"
    by (simp only: c48 visit_record_child append_Nil)
  from t have "node256_iter node256_B_A record_child [] =
      visit record_child (filter (\<lambda>x. x \<noteq> None) (map (child256 node256_B_A) all_bytes)) []"
    by blast
  then have r256: "node256_iter node256_B_A record_child [] = [Some 2, Some 1]"
    by (simp only: c256 visit_record_child append_Nil)
  from r4 r10 r16 r48 r256 show ?thesis by blast
qed

text \<open>
  The claim as it is stated has a Node48 yield its children in ascending order of their
  discriminator byte. A Node48 to which a child was added under \<^verbatim>\<open>B\<close> and then one under
  \<^verbatim>\<open>A\<close> yields the child under \<^verbatim>\<open>B\<close> first.
\<close>

theorem node48_iter_order_counterexample:
  "node48_addChild (newNode48 []) 0x42 (Some 1) =
     Inr \<lparr>prefix = [], size_m = 1, child48 = (replicate 48 None)[0 := Some (1::nat)],
          key48 = (\<lambda>c. 0)(0x42 := 1)\<rparr> \<and>
   node48_addChild \<lparr>prefix = [], size_m = 1, child48 = (replicate 48 None)[0 := Some (1::nat)],
          key48 = (\<lambda>c. 0)(0x42 := 1)\<rparr> 0x41 (Some 2) = Inr node48_B_A \<and>
   node48_lookup node48_B_A 0x41 = Some (Some 2) \<and>
   node48_lookup node48_B_A 0x42 = Some (Some 1) \<and>
   node48_iter node48_B_A record_child [] = [Some 1, Some 2] \<and>
   node48_children_by_byte node48_B_A = [Some 2, Some 1]"
proof -
  have "node48_lookup node48_B_A 0x41 = Some (Some 2)"
    by (simp add: node48_lookup_eq node48_B_A_def)
  moreover have "node48_lookup node48_B_A 0x42 = Some (Some 1)"
    by (simp add: node48_lookup_eq node48_B_A_def)
  moreover have "node48_iter node48_B_A record_child [] = [Some 1, Some 2]"
    by code_simp
  moreover have "node48_children_by_byte node48_B_A = [Some 2, Some 1]"
    by code_simp
  ultimately show ?thesis
    using node48_B_A_built by simp
qed

text \<open>
  Claim C7. The dispatch-table invariant of a Node48 is preserved by \<^verbatim>\<open>addChild\<close>, when
  the node is not full, no child for \<open>c\<close> exists and the child added is not \<^verbatim>\<open>nil\<close>, and
  by \<^verbatim>\<open>deleteChild\<close> for every byte, with the swap-remove and the repair of the table
  entry of the moved child. In both cases the children found under all other bytes stay
  the same; after \<^verbatim>\<open>addChild\<close> the new child is found under \<open>c\<close>, after \<^verbatim>\<open>deleteChild\<close>
  none is.
\<close>

theorem node48_invariant_preserved:
  assumes "inv48 n"
  shows "(size_m n < 48 \<and> key48 n c = 0 \<and> nn \<noteq> None \<longrightarrow>
            (\<exists>n'. node48_addChild n c nn = Inr n' \<and> inv48 n' \<and>
                   node48_lookup n' c = Some nn \<and>
                   (\<forall>d. d \<noteq> c \<longrightarrow> node48_lookup n' d = node48_lookup n d))) \<and>
         inv48 (node48_deleteChild n c) \<and>
         node48_lookup (node48_deleteChild n c) c = None \<and>
         (\<forall>d. d \<noteq> c \<longrightarrow> node48_lookup (node48_deleteChild n c) d = node48_lookup n d)"
proof (intro conjI impI)
  assume "size_m n < 48 \<and> key48 n c = 0 \<and> nn \<noteq> None"
  then have "\<exists>n'. node48_addChild n c nn = Inr n' \<and> inv48 n' \<and> size_m n' = size_m n + 1 \<and>
      prefix n' = prefix n \<and> node48_lookup n' c = Some nn \<and>
      (\<forall>d. d \<noteq> c \<longrightarrow> node48_lookup n' d = node48_lookup n d)"
    using inv48_addChild [OF assms, of c nn] by simp
  then show "\<exists>n'. node48_addChild n c nn = Inr n' \<and> inv48 n' \<and>
      node48_lookup n' c = Some nn \<and> (\<forall>d. d \<noteq> c \<longrightarrow> node48_lookup n' d = node48_lookup n d)"
    by blast
next
  have all: "inv48 (node48_deleteChild n c) \<and>
      node48_lookup (node48_deleteChild n c) c = None \<and>
      (\<forall>d. d \<noteq> c \<longrightarrow> node48_lookup (node48_deleteChild n c) d = node48_lookup n d)"
  proof (cases "key48 n c = 0")
    case True
    then show ?thesis
      using assms by (simp add: node48_deleteChild_absent node48_lookup_eq)
  next
    case False
    from inv48_deleteChild_present [OF assms False] show ?thesis by simp
  qed
  from all show "inv48 (node48_deleteChild n c)" by simp
  from all show "node48_lookup (node48_deleteChild n c) c = None" by simp
  from all show "\<forall>d. d \<noteq> c \<longrightarrow> node48_lookup (node48_deleteChild n c) d = node48_lookup n d"
    by simp
qed

theorem node48_invariant_preserved_witness:
  "inv48 node48_B_A \<and>
   (\<exists>n'. node48_addChild node48_B_A 0x43 (Some 3) = Inr n' \<and> inv48 n' \<and>
          node48_lookup n' 0x43 = Some (Some 3) \<and> node48_lookup n' 0x41 = Some (Some 2)) \<and>
   inv48 (node48_deleteChild node48_B_A 0x42) \<and>
   node48_lookup (node48_deleteChild node48_B_A 0x42) 0x42 = None \<and>
   node48_lookup (node48_deleteChild node48_B_A 0x42) 0x41 = Some (Some 2) \<and>
   key48 (node48_deleteChild node48_B_A 0x42) 0x41 = 1"
proof -
  note t = node48_invariant_preserved [OF inv48_node48_B_A]
  have l: "node48_lookup node48_B_A 0x41 = Some (Some 2)"
    by (simp add: node48_lookup_eq node48_B_A_def)
  have "size_m node48_B_A < 48 \<and> key48 node48_B_A 0x43 = 0 \<and> Some (3::nat) \<noteq> None"
    by (simp add: node48_B_A_def)
  with t [where c = "0x43" and nn = "Some 3"] obtain n' where
    "node48_addChild node48_B_A 0x43 (Some 3) = Inr n'" "inv48 n'"
    "node48_lookup n' 0x43 = Some (Some 3)"
    "\<forall>d. d \<noteq> 0x43 \<longrightarrow> node48_lookup n' d = node48_lookup node48_B_A d"
    by blast
  then have a: "\<exists>n'. node48_addChild node48_B_A 0x43 (Some 3) = Inr n' \<and> inv48 n' \<and>
      node48_lookup n' 0x43 = Some (Some 3) \<and> node48_lookup n' 0x41 = Some (Some 2)"
    using l by (intro exI [of _ n']) simp
  have d: "node48_lookup (node48_deleteChild node48_B_A 0x42) 0x41 = Some (Some 2)"
    using t [where c = "0x42" and nn = None] l by simp
  have kz: "key48 node48_B_A 0x42 \<noteq> 0"
    by (simp add: node48_B_A_def)
  have k: "key48 (node48_deleteChild node48_B_A 0x42) 0x41 = 1"
    unfolding node48_deleteChild_eq [OF inv48_node48_B_A kz]
    by (simp add: node48_B_A_def)
  from t [where c = "0x42" and nn = None] a d k inv48_node48_B_A show ?thesis by simp
qed


subsection \<open>\<^verbatim>\<open>findChild\<close> of the small nodes\<close>

lemma IndexByte_Some:
  "IndexByte xs c = Some k \<Longrightarrow> k < length xs \<and> xs ! k = c"
proof (induction xs arbitrary: k)
  case Nil
  then show ?case by simp
next
  case (Cons x xs)
  show ?case
  proof (cases "x = c")
    case True
    with Cons.prems show ?thesis by simp
  next
    case False
    with Cons.prems obtain k' where k': "IndexByte xs c = Some k'" and k: "k = Suc k'"
      by auto
    from Cons.IH [OF k'] k show ?thesis by simp
  qed
qed

lemma IndexByte_distinct:
  assumes "distinct xs" and "k < length xs"
  shows "IndexByte xs (xs ! k) = Some k"
proof (rule IndexByte_first [OF assms(2) refl])
  show "\<forall>j<k. xs ! j \<noteq> xs ! k"
    using assms by (auto simp: distinct_conv_nth)
qed

lemma node4_findChild_loop_IndexByte:
  assumes "size_m n \<le> length (key4 n)" and "i \<le> size_m n"
  shows "node4_findChild_loop n c i =
     map_option (\<lambda>k. i + k) (IndexByte (drop i (take (size_m n) (key4 n))) c)"
  using assms(2)
proof (induction "size_m n - i" arbitrary: i)
  case 0
  then show ?case
    by (subst node4_findChild_loop.simps) simp
next
  case (Suc d)
  then have lt: "i < size_m n" by simp
  with assms(1) have dr: "drop i (take (size_m n) (key4 n)) =
      key4 n ! i # drop (Suc i) (take (size_m n) (key4 n))"
    using Cons_nth_drop_Suc [of i "take (size_m n) (key4 n)"] by simp
  have "node4_findChild_loop n c (Suc i) =
      map_option (\<lambda>k. Suc i + k) (IndexByte (drop (Suc i) (take (size_m n) (key4 n))) c)"
  proof (rule Suc.hyps(1))
    show "d = size_m n - Suc i" using Suc.hyps(2) by simp
    show "Suc i \<le> size_m n" using lt by simp
  qed
  also have "\<dots> =
      map_option (\<lambda>k. Suc (i + k)) (IndexByte (drop (Suc i) (take (size_m n) (key4 n))) c)"
    by (intro option.map_cong refl) simp
  finally have ih: "node4_findChild_loop n c (Suc i) =
      map_option (\<lambda>k. Suc (i + k)) (IndexByte (drop (Suc i) (take (size_m n) (key4 n))) c)" .
  show ?case
    using lt
    by (subst node4_findChild_loop.simps) (simp add: dr ih option.map_comp comp_def)
qed

lemma node4_lookup_IndexByte:
  assumes "size_m n \<le> length (key4 n)"
  shows "node4_lookup n c =
     map_option (\<lambda>k. child4 n ! k) (IndexByte (take (size_m n) (key4 n)) c)"
  using node4_findChild_loop_IndexByte [OF assms, of 0 c]
  by (simp add: node4_lookup_def node4_findChild_def option.map_ident)

lemma node10_findChild_loop_IndexByte:
  assumes "size_m n \<le> length (key10 n)" and "i \<le> size_m n"
  shows "node10_findChild_loop n c i =
     map_option (\<lambda>k. i + k) (IndexByte (drop i (take (size_m n) (key10 n))) c)"
  using assms(2)
proof (induction "size_m n - i" arbitrary: i)
  case 0
  then show ?case
    by (subst node10_findChild_loop.simps) simp
next
  case (Suc d)
  then have lt: "i < size_m n" by simp
  with assms(1) have dr: "drop i (take (size_m n) (key10 n)) =
      key10 n ! i # drop (Suc i) (take (size_m n) (key10 n))"
    using Cons_nth_drop_Suc [of i "take (size_m n) (key10 n)"] by simp
  have "node10_findChild_loop n c (Suc i) =
      map_option (\<lambda>k. Suc i + k) (IndexByte (drop (Suc i) (take (size_m n) (key10 n))) c)"
  proof (rule Suc.hyps(1))
    show "d = size_m n - Suc i" using Suc.hyps(2) by simp
    show "Suc i \<le> size_m n" using lt by simp
  qed
  also have "\<dots> =
      map_option (\<lambda>k. Suc (i + k)) (IndexByte (drop (Suc i) (take (size_m n) (key10 n))) c)"
    by (intro option.map_cong refl) simp
  finally have ih: "node10_findChild_loop n c (Suc i) =
      map_option (\<lambda>k. Suc (i + k)) (IndexByte (drop (Suc i) (take (size_m n) (key10 n))) c)" .
  show ?case
    using lt
    by (subst node10_findChild_loop.simps) (simp add: dr ih option.map_comp comp_def)
qed

lemma node10_lookup_IndexByte:
  assumes "size_m n \<le> length (key10 n)"
  shows "node10_lookup n c =
     map_option (\<lambda>k. child10 n ! k) (IndexByte (take (size_m n) (key10 n)) c)"
  using node10_findChild_loop_IndexByte [OF assms, of 0 c]
  by (simp add: node10_lookup_def node10_findChild_def option.map_ident)

lemma node16_findChild_loop_IndexByte:
  assumes "size_m n \<le> length (key16 n)" and "i \<le> size_m n"
  shows "node16_findChild_loop n c i =
     map_option (\<lambda>k. i + k) (IndexByte (drop i (take (size_m n) (key16 n))) c)"
  using assms(2)
proof (induction "size_m n - i" arbitrary: i)
  case 0
  then show ?case
    by (subst node16_findChild_loop.simps) simp
next
  case (Suc d)
  then have lt: "i < size_m n" by simp
  with assms(1) have dr: "drop i (take (size_m n) (key16 n)) =
      key16 n ! i # drop (Suc i) (take (size_m n) (key16 n))"
    using Cons_nth_drop_Suc [of i "take (size_m n) (key16 n)"] by simp
  have "node16_findChild_loop n c (Suc i) =
      map_option (\<lambda>k. Suc i + k) (IndexByte (drop (Suc i) (take (size_m n) (key16 n))) c)"
  proof (rule Suc.hyps(1))
    show "d = size_m n - Suc i" using Suc.hyps(2) by simp
    show "Suc i \<le> size_m n" using lt by simp
  qed
  also have "\<dots> =
      map_option (\<lambda>k. Suc (i + k)) (IndexByte (drop (Suc i) (take (size_m n) (key16 n))) c)"
    by (intro option.map_cong refl) simp
  finally have ih: "node16_findChild_loop n c (Suc i) =
      map_option (\<lambda>k. Suc (i + k)) (IndexByte (drop (Suc i) (take (size_m n) (key16 n))) c)" .
  show ?case
    using lt
    by (subst node16_findChild_loop.simps) (simp add: dr ih option.map_comp comp_def)
qed

lemma node16_lookup_IndexByte:
  assumes "size_m n \<le> length (key16 n)"
  shows "node16_lookup n c =
     map_option (\<lambda>k. child16 n ! k) (IndexByte (take (size_m n) (key16 n)) c)"
  using node16_findChild_loop_IndexByte [OF assms, of 0 c]
  by (simp add: node16_lookup_def node16_findChild_def option.map_ident)

subsection \<open>Copying a small node into another small node\<close>

lemma node10_shrink_loop_copy:
  assumes "size_m nn = i" and "i \<le> size_m n" and "size_m n \<le> 4"
    and "length (key4 nn) = 4" and "length (child4 nn) = 4"
  shows "\<exists>nn'. node10_shrink_loop n i nn = Inr nn' \<and> size_m nn' = size_m n \<and> prefix nn' = prefix nn \<and>
           length (key4 nn') = 4 \<and> length (child4 nn') = 4 \<and>
           (\<forall>j < size_m n. key4 nn' ! j = (if j < i then key4 nn ! j else key10 n ! j)) \<and>
           (\<forall>j < size_m n. child4 nn' ! j = (if j < i then child4 nn ! j else child10 n ! j))"
  using assms(1,2,4,5)
proof (induction "size_m n - i" arbitrary: i nn)
  case 0
  then have "i = size_m n" by simp
  with 0 show ?case
    by (subst node10_shrink_loop.simps) simp
next
  case (Suc d)
  then have lt: "i < size_m n" by simp
  with assms(3) have it: "i < 4" by simp
  define nn1 where "nn1 = nn\<lparr>key4 := (key4 nn)[size_m nn := key10 n ! i],
      child4 := (child4 nn)[size_m nn := child10 n ! i], size_m := size_m nn + 1\<rparr>"
  have add: "node4_addChild nn (key10 n ! i) (child10 n ! i) = Inr nn1"
    using it Suc.prems(1) by (simp add: node4_addChild_def nn1_def)
  have s1: "size_m nn1 = Suc i" "prefix nn1 = prefix nn"
    "length (key4 nn1) = 4" "length (child4 nn1) = 4"
    using Suc.prems by (simp_all add: nn1_def)
  have k1: "key4 nn1 ! j = (if j = i then key10 n ! i else key4 nn ! j)" for j
    using it Suc.prems by (simp add: nn1_def nth_list_update)
  have c1: "child4 nn1 ! j = (if j = i then child10 n ! i else child4 nn ! j)" for j
    using it Suc.prems by (simp add: nn1_def nth_list_update)
  have "\<exists>nn'. node10_shrink_loop n (Suc i) nn1 = Inr nn' \<and> size_m nn' = size_m n \<and>
      prefix nn' = prefix nn1 \<and> length (key4 nn') = 4 \<and> length (child4 nn') = 4 \<and>
      (\<forall>j < size_m n. key4 nn' ! j = (if j < Suc i then key4 nn1 ! j else key10 n ! j)) \<and>
      (\<forall>j < size_m n. child4 nn' ! j = (if j < Suc i then child4 nn1 ! j else child10 n ! j))"
  proof (rule Suc.hyps(1))
    show "d = size_m n - Suc i" using Suc.hyps(2) by simp
    show "size_m nn1 = Suc i" by (rule s1)
    show "Suc i \<le> size_m n" using lt by simp
    show "length (key4 nn1) = 4" by (rule s1)
    show "length (child4 nn1) = 4" by (rule s1)
  qed
  then obtain nn' where r: "node10_shrink_loop n (Suc i) nn1 = Inr nn'"
    and p: "size_m nn' = size_m n" "prefix nn' = prefix nn1"
      "length (key4 nn') = 4" "length (child4 nn') = 4"
    and k: "\<And>j. j < size_m n \<Longrightarrow> key4 nn' ! j = (if j < Suc i then key4 nn1 ! j else key10 n ! j)"
    and c: "\<And>j. j < size_m n \<Longrightarrow> child4 nn' ! j = (if j < Suc i then child4 nn1 ! j else child10 n ! j)"
    by blast
  have res: "node10_shrink_loop n i nn = Inr nn'"
    using lt add r by (subst node10_shrink_loop.simps) simp
  have k': "key4 nn' ! j = (if j < i then key4 nn ! j else key10 n ! j)" if "j < size_m n" for j
    using k [OF that] k1 [of j] by (auto simp: less_Suc_eq)
  have c': "child4 nn' ! j = (if j < i then child4 nn ! j else child10 n ! j)" if "j < size_m n" for j
    using c [OF that] c1 [of j] by (auto simp: less_Suc_eq)
  from res p s1(2) k' c' show ?case by simp
qed

lemma node10_shrink_copy:
  assumes "size_m n \<le> 4" and "size_m n \<le> length (key10 n)" and "size_m n \<le> length (child10 n)"
  shows "\<exists>nn'. node10_shrink_loop n 0 (newNode4 pre) = Inr nn' \<and> size_m nn' = size_m n \<and>
           prefix nn' = pre \<and> length (key4 nn') = 4 \<and> length (child4 nn') = 4 \<and>
           take (size_m n) (key4 nn') = take (size_m n) (key10 n) \<and>
           take (size_m n) (child4 nn') = take (size_m n) (child10 n)"
proof -
  have "\<exists>nn'. node10_shrink_loop n 0 (newNode4 pre) = Inr nn' \<and> size_m nn' = size_m n \<and>
      prefix nn' = prefix (newNode4 pre :: 'a node4) \<and>
      length (key4 nn') = 4 \<and> length (child4 nn') = 4 \<and>
      (\<forall>j < size_m n. key4 nn' ! j =
         (if j < 0 then key4 (newNode4 pre :: 'a node4) ! j else key10 n ! j)) \<and>
      (\<forall>j < size_m n. child4 nn' ! j =
         (if j < 0 then child4 (newNode4 pre :: 'a node4) ! j else child10 n ! j))"
    by (rule node10_shrink_loop_copy [OF _ _ assms(1)])
      (simp_all add: newNode4_def setPrefix_def)
  then obtain nn' where r: "node10_shrink_loop n 0 (newNode4 pre) = Inr nn'"
    and p: "size_m nn' = size_m n" "length (key4 nn') = 4" "length (child4 nn') = 4"
    and pf: "prefix nn' = prefix (newNode4 pre :: 'a node4)"
    and k: "\<And>j. j < size_m n \<Longrightarrow> key4 nn' ! j = key10 n ! j"
    and c: "\<And>j. j < size_m n \<Longrightarrow> child4 nn' ! j = child10 n ! j"
    by auto
  have tk: "take (size_m n) (key4 nn') = take (size_m n) (key10 n)"
    using assms p k by (intro nth_equalityI) simp_all
  have tc: "take (size_m n) (child4 nn') = take (size_m n) (child10 n)"
    using assms p c by (intro nth_equalityI) simp_all
  from r p pf tk tc show ?thesis
    by (simp add: newNode4_def setPrefix_def)
qed

lemma node10_shrink_lookup:
  assumes "size_m n \<le> 4" and "size_m n \<le> length (key10 n)" and "size_m n \<le> length (child10 n)"
  shows "\<exists>nn'. node10_shrink_loop n 0 (newNode4 pre) = Inr nn' \<and> size_m nn' = size_m n \<and>
           prefix nn' = pre \<and> (\<forall>c. node4_lookup nn' c = node10_lookup n c)"
proof -
  from node10_shrink_copy [OF assms(1,2,3), of pre]
  obtain nn' where r: "node10_shrink_loop n 0 (newNode4 pre) = Inr nn'"
    and p: "size_m nn' = size_m n" "prefix nn' = pre" "length (key4 nn') = 4"
    and tk: "take (size_m n) (key4 nn') = take (size_m n) (key10 n)"
    and tc: "take (size_m n) (child4 nn') = take (size_m n) (child10 n)"
    by blast
  have "node4_lookup nn' c = node10_lookup n c" for c
  proof -
    have a: "node4_lookup nn' c =
        map_option (\<lambda>k. child4 nn' ! k) (IndexByte (take (size_m n) (key10 n)) c)"
      using node4_lookup_IndexByte [of nn' c] p assms(1) tk by simp
    have b: "node10_lookup n c =
        map_option (\<lambda>k. child10 n ! k) (IndexByte (take (size_m n) (key10 n)) c)"
      using node10_lookup_IndexByte [of n c] assms(2) by simp
    show ?thesis
    proof (cases "IndexByte (take (size_m n) (key10 n)) c")
      case None
      then show ?thesis by (simp add: a b)
    next
      case (Some k)
      from IndexByte_Some [OF Some] have "k < size_m n" by simp
      then have "child4 nn' ! k = child10 n ! k"
        using nth_take [of k "(size_m n)" "child4 nn'"] nth_take [of k "(size_m n)" "child10 n"] tc
        by simp
      with Some show ?thesis by (simp add: a b)
    qed
  qed
  with r p show ?thesis by simp
qed

lemma node16_shrink_loop_copy:
  assumes "size_m nn = i" and "i \<le> size_m n" and "size_m n \<le> 10"
    and "length (key10 nn) = 10" and "length (child10 nn) = 10"
  shows "\<exists>nn'. node16_shrink_loop n i nn = Inr nn' \<and> size_m nn' = size_m n \<and> prefix nn' = prefix nn \<and>
           length (key10 nn') = 10 \<and> length (child10 nn') = 10 \<and>
           (\<forall>j < size_m n. key10 nn' ! j = (if j < i then key10 nn ! j else key16 n ! j)) \<and>
           (\<forall>j < size_m n. child10 nn' ! j = (if j < i then child10 nn ! j else child16 n ! j))"
  using assms(1,2,4,5)
proof (induction "size_m n - i" arbitrary: i nn)
  case 0
  then have "i = size_m n" by simp
  with 0 show ?case
    by (subst node16_shrink_loop.simps) simp
next
  case (Suc d)
  then have lt: "i < size_m n" by simp
  with assms(3) have it: "i < 10" by simp
  define nn1 where "nn1 = nn\<lparr>key10 := (key10 nn)[size_m nn := key16 n ! i],
      child10 := (child10 nn)[size_m nn := child16 n ! i], size_m := size_m nn + 1\<rparr>"
  have add: "node10_addChild nn (key16 n ! i) (child16 n ! i) = Inr nn1"
    using it Suc.prems(1) by (simp add: node10_addChild_def nn1_def)
  have s1: "size_m nn1 = Suc i" "prefix nn1 = prefix nn"
    "length (key10 nn1) = 10" "length (child10 nn1) = 10"
    using Suc.prems by (simp_all add: nn1_def)
  have k1: "key10 nn1 ! j = (if j = i then key16 n ! i else key10 nn ! j)" for j
    using it Suc.prems by (simp add: nn1_def nth_list_update)
  have c1: "child10 nn1 ! j = (if j = i then child16 n ! i else child10 nn ! j)" for j
    using it Suc.prems by (simp add: nn1_def nth_list_update)
  have "\<exists>nn'. node16_shrink_loop n (Suc i) nn1 = Inr nn' \<and> size_m nn' = size_m n \<and>
      prefix nn' = prefix nn1 \<and> length (key10 nn') = 10 \<and> length (child10 nn') = 10 \<and>
      (\<forall>j < size_m n. key10 nn' ! j = (if j < Suc i then key10 nn1 ! j else key16 n ! j)) \<and>
      (\<forall>j < size_m n. child10 nn' ! j = (if j < Suc i then child10 nn1 ! j else child16 n ! j))"
  proof (rule Suc.hyps(1))
    show "d = size_m n - Suc i" using Suc.hyps(2) by simp
    show "size_m nn1 = Suc i" by (rule s1)
    show "Suc i \<le> size_m n" using lt by simp
    show "length (key10 nn1) = 10" by (rule s1)
    show "length (child10 nn1) = 10" by (rule s1)
  qed
  then obtain nn' where r: "node16_shrink_loop n (Suc i) nn1 = Inr nn'"
    and p: "size_m nn' = size_m n" "prefix nn' = prefix nn1"
      "length (key10 nn') = 10" "length (child10 nn') = 10"
    and k: "\<And>j. j < size_m n \<Longrightarrow> key10 nn' ! j = (if j < Suc i then key10 nn1 ! j else key16 n ! j)"
    and c: "\<And>j. j < size_m n \<Longrightarrow> child10 nn' ! j = (if j < Suc i then child10 nn1 ! j else child16 n ! j)"
    by blast
  have res: "node16_shrink_loop n i nn = Inr nn'"
    using lt add r by (subst node16_shrink_loop.simps) simp
  have k': "key10 nn' ! j = (if j < i then key10 nn ! j else key16 n ! j)" if "j < size_m n" for j
    using k [OF that] k1 [of j] by (auto simp: less_Suc_eq)
  have c': "child10 nn' ! j = (if j < i then child10 nn ! j else child16 n ! j)" if "j < size_m n" for j
    using c [OF that] c1 [of j] by (auto simp: less_Suc_eq)
  from res p s1(2) k' c' show ?case by simp
qed

lemma node16_shrink_copy:
  assumes "size_m n \<le> 10" and "size_m n \<le> length (key16 n)" and "size_m n \<le> length (child16 n)"
  shows "\<exists>nn'. node16_shrink_loop n 0 (newNode10 pre) = Inr nn' \<and> size_m nn' = size_m n \<and>
           prefix nn' = pre \<and> length (key10 nn') = 10 \<and> length (child10 nn') = 10 \<and>
           take (size_m n) (key10 nn') = take (size_m n) (key16 n) \<and>
           take (size_m n) (child10 nn') = take (size_m n) (child16 n)"
proof -
  have "\<exists>nn'. node16_shrink_loop n 0 (newNode10 pre) = Inr nn' \<and> size_m nn' = size_m n \<and>
      prefix nn' = prefix (newNode10 pre :: 'a node10) \<and>
      length (key10 nn') = 10 \<and> length (child10 nn') = 10 \<and>
      (\<forall>j < size_m n. key10 nn' ! j =
         (if j < 0 then key10 (newNode10 pre :: 'a node10) ! j else key16 n ! j)) \<and>
      (\<forall>j < size_m n. child10 nn' ! j =
         (if j < 0 then child10 (newNode10 pre :: 'a node10) ! j else child16 n ! j))"
    by (rule node16_shrink_loop_copy [OF _ _ assms(1)])
      (simp_all add: newNode10_def setPrefix_def)
  then obtain nn' where r: "node16_shrink_loop n 0 (newNode10 pre) = Inr nn'"
    and p: "size_m nn' = size_m n" "length (key10 nn') = 10" "length (child10 nn') = 10"
    and pf: "prefix nn' = prefix (newNode10 pre :: 'a node10)"
    and k: "\<And>j. j < size_m n \<Longrightarrow> key10 nn' ! j = key16 n ! j"
    and c: "\<And>j. j < size_m n \<Longrightarrow> child10 nn' ! j = child16 n ! j"
    by auto
  have tk: "take (size_m n) (key10 nn') = take (size_m n) (key16 n)"
    using assms p k by (intro nth_equalityI) simp_all
  have tc: "take (size_m n) (child10 nn') = take (size_m n) (child16 n)"
    using assms p c by (intro nth_equalityI) simp_all
  from r p pf tk tc show ?thesis
    by (simp add: newNode10_def setPrefix_def)
qed

lemma node16_shrink_lookup:
  assumes "size_m n \<le> 10" and "size_m n \<le> length (key16 n)" and "size_m n \<le> length (child16 n)"
  shows "\<exists>nn'. node16_shrink_loop n 0 (newNode10 pre) = Inr nn' \<and> size_m nn' = size_m n \<and>
           prefix nn' = pre \<and> (\<forall>c. node10_lookup nn' c = node16_lookup n c)"
proof -
  from node16_shrink_copy [OF assms(1,2,3), of pre]
  obtain nn' where r: "node16_shrink_loop n 0 (newNode10 pre) = Inr nn'"
    and p: "size_m nn' = size_m n" "prefix nn' = pre" "length (key10 nn') = 10"
    and tk: "take (size_m n) (key10 nn') = take (size_m n) (key16 n)"
    and tc: "take (size_m n) (child10 nn') = take (size_m n) (child16 n)"
    by blast
  have "node10_lookup nn' c = node16_lookup n c" for c
  proof -
    have a: "node10_lookup nn' c =
        map_option (\<lambda>k. child10 nn' ! k) (IndexByte (take (size_m n) (key16 n)) c)"
      using node10_lookup_IndexByte [of nn' c] p assms(1) tk by simp
    have b: "node16_lookup n c =
        map_option (\<lambda>k. child16 n ! k) (IndexByte (take (size_m n) (key16 n)) c)"
      using node16_lookup_IndexByte [of n c] assms(2) by simp
    show ?thesis
    proof (cases "IndexByte (take (size_m n) (key16 n)) c")
      case None
      then show ?thesis by (simp add: a b)
    next
      case (Some k)
      from IndexByte_Some [OF Some] have "k < size_m n" by simp
      then have "child10 nn' ! k = child16 n ! k"
        using nth_take [of k "(size_m n)" "child10 nn'"] nth_take [of k "(size_m n)" "child16 n"] tc
        by simp
      with Some show ?thesis by (simp add: a b)
    qed
  qed
  with r p show ?thesis by simp
qed








subsection \<open>Growing a \<^verbatim>\<open>node48\<close> and a \<^verbatim>\<open>node16\<close>\<close>

lemma unat_of_nat_Suc_byte: "j < 255 \<Longrightarrow> unat (of_nat (j + 1) :: byte) - 1 = j"
  using unat_of_nat_byte [of "j + 1"] by simp

lemma of_nat_byte_neq: "c < 256 \<Longrightarrow> unat d \<noteq> c \<Longrightarrow> d \<noteq> (of_nat c :: byte)"
  by (auto simp: unat_of_nat_byte)





subsection \<open>The bytes below a bound\<close>

lemma bytes_below_Suc: "bytes_below (Suc c) = bytes_below c @ [of_nat c]"
  by (simp add: bytes_below_def)

lemma all_bytes_below: "all_bytes = bytes_below 256"
  by (simp add: all_bytes_def bytes_below_def)

lemma set_bytes_below: "c \<le> 256 \<Longrightarrow> set (bytes_below c) = {d. unat d < c}"
proof (induction c)
  case 0
  then show ?case by (simp add: bytes_below_def)
next
  case (Suc c)
  then have lt: "c < 256" by simp
  have "(d = (of_nat c :: byte)) = (unat d = c)" for d
    using unat_of_nat_byte [OF lt] by (auto simp: byte_eq_unat)
  with Suc show ?case
    by (auto simp: bytes_below_Suc less_Suc_eq)
qed

lemma set_bytes_below_256: "set (bytes_below 256) = UNIV"
  using set_bytes_below [of 256] unat_byte_lt by auto

lemma distinct_bytes_below: "c \<le> 256 \<Longrightarrow> distinct (bytes_below c)"
proof (induction c)
  case 0
  then show ?case by (simp add: bytes_below_def)
next
  case (Suc c)
  then have lt: "c < 256" by simp
  have "of_nat c \<notin> set (bytes_below c)"
    using set_bytes_below [of c] lt unat_of_nat_byte [OF lt] by simp
  with Suc show ?case
    by (simp add: bytes_below_Suc)
qed

lemma filter_bytes_below_mono:
  assumes "c \<le> 256"
  shows "length (filter P (bytes_below c)) \<le> length (filter P (bytes_below 256))"
proof -
  from assms obtain k where k: "256 = c + k"
    using le_Suc_ex by blast
  have "[0..<c + k] = [0..<c] @ [c..<c + k]"
    by (rule upt_add_eq_append) simp
  then have "bytes_below 256 = bytes_below c @ map of_nat [c..<c + k]"
    unfolding bytes_below_def k by simp
  then show ?thesis by simp
qed

lemma of_nat_notin_bytes_below: "c < 256 \<Longrightarrow> (of_nat c :: byte) \<notin> set (bytes_below c)"
  using set_bytes_below [of c] unat_of_nat_byte [of c] by simp

subsection \<open>Shrinking a \<^verbatim>\<open>node256\<close>\<close>

lemma node256_shrink_loop_inv:
  fixes n :: "'a node256"
  defines "M \<equiv> \<lambda>c. filter (\<lambda>d. child256 n d \<noteq> None) (bytes_below c)"
  assumes cap: "length (M 256) \<le> 48"
    and "c \<le> 256" and "size_m nn = length (M c)" and "length (child48 nn) = 48"
    and "\<forall>j<length (M c). key48 nn (M c ! j) = of_nat (j + 1) \<and>
           child48 nn ! j = child256 n (M c ! j)"
    and "\<forall>d. d \<notin> set (M c) \<longrightarrow> key48 nn d = 0"
  shows "\<exists>nn'. node256_shrink_loop n c nn = Inr nn' \<and> size_m nn' = length (M 256) \<and>
           prefix nn' = prefix nn \<and>
           (\<forall>j<length (M 256). key48 nn' (M 256 ! j) = of_nat (j + 1) \<and>
              child48 nn' ! j = child256 n (M 256 ! j)) \<and>
           (\<forall>d. d \<notin> set (M 256) \<longrightarrow> key48 nn' d = 0)"
  using assms(3-)
proof (induction "256 - c" arbitrary: c nn)
  case 0
  then have "c = 256" by simp
  with 0 show ?case
    by (subst node256_shrink_loop.simps) simp
next
  case (Suc m)
  then have lt: "c < 256" by simp
  define bb :: byte where "bb = of_nat c"
  have MS: "M (Suc c) = M c @ (if child256 n bb \<noteq> None then [bb] else [])"
    by (simp add: M_def bytes_below_Suc bb_def)
  have notin: "bb \<notin> set (M c)"
    using of_nat_notin_bytes_below [OF lt] by (simp add: M_def bb_def)
  show ?case
  proof (cases "child256 n bb = None")
    case True
    have step: "node256_shrink_loop n c nn = node256_shrink_loop n (Suc c) nn"
      using lt True by (subst node256_shrink_loop.simps) (simp add: bb_def)
    have Meq: "M (Suc c) = M c"
      using True by (simp add: MS)
    have "\<exists>nn'. node256_shrink_loop n (Suc c) nn = Inr nn' \<and> size_m nn' = length (M 256) \<and>
           prefix nn' = prefix nn \<and>
           (\<forall>j<length (M 256). key48 nn' (M 256 ! j) = of_nat (j + 1) \<and>
              child48 nn' ! j = child256 n (M 256 ! j)) \<and>
           (\<forall>d. d \<notin> set (M 256) \<longrightarrow> key48 nn' d = 0)"
    proof (rule Suc.hyps(1))
      show "m = 256 - Suc c" using Suc.hyps(2) by simp
      show "Suc c \<le> 256" using lt by simp
      show "size_m nn = length (M (Suc c))" using Suc.prems(2) by (simp add: Meq)
      show "length (child48 nn) = 48" by (rule Suc.prems(3))
      show "\<forall>j<length (M (Suc c)). key48 nn (M (Suc c) ! j) = of_nat (j + 1) \<and>
           child48 nn ! j = child256 n (M (Suc c) ! j)"
        using Suc.prems(4) by (simp add: Meq)
      show "\<forall>d. d \<notin> set (M (Suc c)) \<longrightarrow> key48 nn d = 0"
        using Suc.prems(5) by (simp add: Meq)
    qed
    then show ?thesis unfolding step .
  next
    case False
    define sz where "sz = length (M c)"
    have Meq: "M (Suc c) = M c @ [bb]"
      using False by (simp add: MS)
    have "length (M (Suc c)) \<le> length (M 256)"
      unfolding M_def using lt by (intro filter_bytes_below_mono) simp
    with cap have szlt: "sz < 48"
      by (simp add: Meq sz_def)
    define w :: byte where "w = of_nat (sz + 1)"
    define nn1 where "nn1 = nn\<lparr>child48 := (child48 nn)[size_m nn := child256 n bb],
      key48 := (key48 nn)(bb := w), size_m := size_m nn + 1\<rparr>"
    have add: "node48_addChild nn bb (child256 n bb) = Inr nn1"
      using szlt Suc.prems(2) by (simp add: node48_addChild_def nn1_def w_def sz_def)
    have step: "node256_shrink_loop n c nn = node256_shrink_loop n (Suc c) nn1"
      using lt False add by (subst node256_shrink_loop.simps) (simp add: bb_def)
    have s1: "size_m nn1 = Suc sz" "prefix nn1 = prefix nn" "length (child48 nn1) = 48"
      using Suc.prems by (simp_all add: nn1_def sz_def)
    have c1: "child48 nn1 ! j = (if j = sz then child256 n bb else child48 nn ! j)" for j
      using szlt Suc.prems by (simp add: nn1_def nth_list_update sz_def)
    have k1: "key48 nn1 d = (if d = bb then w else key48 nn d)" for d
      by (simp add: nn1_def)
    have inv1: "\<forall>j<length (M (Suc c)). key48 nn1 (M (Suc c) ! j) = of_nat (j + 1) \<and>
           child48 nn1 ! j = child256 n (M (Suc c) ! j)"
    proof (intro allI impI)
      fix j assume "j < length (M (Suc c))"
      then have "j < Suc sz" by (simp add: Meq sz_def)
      then consider "j = sz" | "j < sz" by linarith
      then show "key48 nn1 (M (Suc c) ! j) = of_nat (j + 1) \<and>
           child48 nn1 ! j = child256 n (M (Suc c) ! j)"
      proof cases
        case 1
        then show ?thesis by (simp add: Meq c1 k1 w_def sz_def)
      next
        case 2
        then have mj: "M (Suc c) ! j = M c ! j"
          by (simp add: Meq nth_append sz_def)
        have "M c ! j \<in> set (M c)" using 2 by (simp add: sz_def)
        with notin have "M c ! j \<noteq> bb" by auto
        with 2 Suc.prems(4) show ?thesis by (simp add: mj c1 k1 sz_def)
      qed
    qed
    have inv2: "\<forall>d. d \<notin> set (M (Suc c)) \<longrightarrow> key48 nn1 d = 0"
      using Suc.prems(5) by (simp add: Meq k1)
    have "\<exists>nn'. node256_shrink_loop n (Suc c) nn1 = Inr nn' \<and> size_m nn' = length (M 256) \<and>
           prefix nn' = prefix nn1 \<and>
           (\<forall>j<length (M 256). key48 nn' (M 256 ! j) = of_nat (j + 1) \<and>
              child48 nn' ! j = child256 n (M 256 ! j)) \<and>
           (\<forall>d. d \<notin> set (M 256) \<longrightarrow> key48 nn' d = 0)"
    proof (rule Suc.hyps(1))
      show "m = 256 - Suc c" using Suc.hyps(2) by simp
      show "Suc c \<le> 256" using lt by simp
      show "size_m nn1 = length (M (Suc c))" by (simp add: s1 Meq sz_def)
      show "length (child48 nn1) = 48" by (rule s1)
      show "\<forall>j<length (M (Suc c)). key48 nn1 (M (Suc c) ! j) = of_nat (j + 1) \<and>
           child48 nn1 ! j = child256 n (M (Suc c) ! j)"
        by (rule inv1)
      show "\<forall>d. d \<notin> set (M (Suc c)) \<longrightarrow> key48 nn1 d = 0"
        by (rule inv2)
    qed
    then show ?thesis unfolding step s1 .
  qed
qed

lemma node256_shrink_lookup:
  assumes "wf256 n" and "size_m n \<le> 48"
  shows "\<exists>r. node256_shrink n = Inr (Some r) \<and> size_m r = size_m n \<and> prefix r = [] \<and>
           (\<forall>c. node48_lookup r c = node256_lookup n c)"
proof -
  define M where "M = filter (\<lambda>d. child256 n d \<noteq> None) (bytes_below 256)"
  from assms have szM: "size_m n = length M"
    by (simp add: wf256_def M_def all_bytes_below)
  with assms(2) have cap: "length M \<le> 48" by simp
  have "\<exists>nn'. node256_shrink_loop n 0 (newNode48 []) = Inr nn' \<and>
      size_m nn' = length (filter (\<lambda>d. child256 n d \<noteq> None) (bytes_below 256)) \<and>
      prefix nn' = prefix (newNode48 [] :: 'a node48) \<and>
      (\<forall>j<length (filter (\<lambda>d. child256 n d \<noteq> None) (bytes_below 256)).
         key48 nn' (filter (\<lambda>d. child256 n d \<noteq> None) (bytes_below 256) ! j) = of_nat (j + 1) \<and>
         child48 nn' ! j =
           child256 n (filter (\<lambda>d. child256 n d \<noteq> None) (bytes_below 256) ! j)) \<and>
      (\<forall>d. d \<notin> set (filter (\<lambda>d. child256 n d \<noteq> None) (bytes_below 256)) \<longrightarrow>
         key48 nn' d = 0)"
    using cap unfolding M_def
    by (intro node256_shrink_loop_inv)
      (simp_all add: newNode48_def setPrefix_def bytes_below_def)
  then obtain r where r: "node256_shrink_loop n 0 (newNode48 []) = Inr r"
    and sz: "size_m r = length M" and pf: "prefix r = prefix (newNode48 [] :: 'a node48)"
    and ent: "\<And>j. j < length M \<Longrightarrow>
        key48 r (M ! j) = of_nat (j + 1) \<and> child48 r ! j = child256 n (M ! j)"
    and rest: "\<And>d. d \<notin> set M \<Longrightarrow> key48 r d = 0"
    unfolding M_def by blast
  have mem: "(c \<in> set M) = (child256 n c \<noteq> None)" for c
    by (simp add: M_def set_bytes_below_256)
  have "node48_lookup r c = node256_lookup n c" for c
  proof (cases "child256 n c = None")
    case True
    then have "c \<notin> set M" by (simp add: mem)
    from rest [OF this] True show ?thesis
      by (simp add: node48_lookup_eq node256_lookup_def node256_findChild_def)
  next
    case False
    then have "c \<in> set M" by (simp add: mem)
    then obtain j where j: "j < length M" and c: "M ! j = c"
      by (auto simp: in_set_conv_nth)
    from ent [OF j] have k: "key48 r c = of_nat (j + 1)" and ch: "child48 r ! j = child256 n c"
      by (simp_all add: c)
    have u: "unat (of_nat (j + 1) :: byte) = j + 1"
      using j cap by (intro unat_of_nat_byte) simp
    then have nz: "(of_nat (j + 1) :: byte) \<noteq> 0"
      by (auto simp: byte_eq_unat)
    show ?thesis
      unfolding node48_lookup_eq k using nz u ch False
      by (simp add: node256_lookup_def node256_findChild_def)
  qed
  with r sz pf szM assms(2) show ?thesis
    by (simp add: node256_shrink_def newNode48_def setPrefix_def)
qed

subsection \<open>Shrinking a \<^verbatim>\<open>node48\<close>\<close>

lemma node48_table_count:
  assumes "inv48 n"
  shows "length (filter (\<lambda>d. key48 n d \<noteq> 0) (bytes_below 256)) \<le> size_m n"
    and "wf48 n \<Longrightarrow> length (filter (\<lambda>d. key48 n d \<noteq> 0) (bytes_below 256)) = size_m n"
proof -
  define L where "L = filter (\<lambda>d. key48 n d \<noteq> 0) (bytes_below 256)"
  define f where "f = (\<lambda>d. unat (key48 n d) - 1)"
  have i: "length (child48 n) = 48 \<and> size_m n \<le> 48 \<and>
     (\<forall>c. key48 n c = 0 \<or> unat (key48 n c) \<le> size_m n) \<and>
     (\<forall>c d. key48 n c \<noteq> 0 \<and> key48 n c = key48 n d \<longrightarrow> c = d) \<and>
     (\<forall>i<48. (child48 n ! i \<noteq> None) = (i < size_m n))"
    using assms unfolding inv48_def .
  note bound = i [THEN conjunct2, THEN conjunct2, THEN conjunct1, rule_format]
  note inj0 = i [THEN conjunct2, THEN conjunct2, THEN conjunct2, THEN conjunct1, rule_format]
  have inj: "d = e" if "key48 n d \<noteq> 0" and "key48 n d = key48 n e" for d e
  proof (rule inj0)
    from that show "key48 n d \<noteq> 0 \<and> key48 n d = key48 n e" by simp
  qed
  have dist: "distinct L"
    unfolding L_def by (intro distinct_filter distinct_bytes_below) simp
  have setL: "set L = {d. key48 n d \<noteq> 0}"
    by (simp add: L_def set_bytes_below_256)
  have pos: "1 \<le> unat (key48 n d)" if "key48 n d \<noteq> 0" for d
    using that by (simp add: unat_gt_0 Suc_leI)
  have io: "inj_on f (set L)"
  proof (rule inj_onI)
    fix d e assume d: "d \<in> set L" and e: "e \<in> set L" and fe: "f d = f e"
    from d e have "key48 n d \<noteq> 0" "key48 n e \<noteq> 0" by (simp_all add: setL)
    with fe pos [of d] pos [of e] have "unat (key48 n d) = unat (key48 n e)"
      by (simp add: f_def)
    then have "key48 n d = key48 n e" by (simp add: byte_eq_unat)
    with \<open>key48 n d \<noteq> 0\<close> show "d = e" by (rule inj)
  qed
  have sub: "f ` set L \<subseteq> {0..<size_m n}"
  proof
    fix x assume "x \<in> f ` set L"
    then obtain d where d: "key48 n d \<noteq> 0" and x: "x = f d" by (auto simp: setL)
    from bound [of d] d pos [of d] show "x \<in> {0..<size_m n}"
      by (simp add: x f_def)
  qed
  have "length L = card (set L)"
    using dist by (simp add: distinct_card)
  also have "\<dots> = card (f ` set L)"
    using io by (simp add: card_image)
  finally have lc: "length L = card (f ` set L)" .
  have "card (f ` set L) \<le> card {0..<size_m n}"
    using sub by (intro card_mono) simp_all
  with lc show "length (filter (\<lambda>d. key48 n d \<noteq> 0) (bytes_below 256)) \<le> size_m n"
    by (simp add: L_def)
  assume "wf48 n"
  then have sur: "\<And>i. i < size_m n \<Longrightarrow> \<exists>c. unat (key48 n c) = i + 1"
    by (simp add: wf48_def)
  have "{0..<size_m n} \<subseteq> f ` set L"
  proof
    fix i assume "i \<in> {0..<size_m n}"
    then have "i < size_m n" by simp
    from sur [OF this] obtain c where c: "unat (key48 n c) = i + 1" by blast
    then have "key48 n c \<noteq> 0" by (auto simp: byte_eq_unat)
    with c show "i \<in> f ` set L"
      by (auto simp: setL f_def image_iff intro!: exI [of _ c])
  qed
  with sub have "f ` set L = {0..<size_m n}" by blast
  with lc show "length (filter (\<lambda>d. key48 n d \<noteq> 0) (bytes_below 256)) = size_m n"
    by (simp add: L_def)
qed

lemma node48_shrink_loop_inv:
  fixes n :: "'a node48"
  defines "L \<equiv> \<lambda>c. filter (\<lambda>d. key48 n d \<noteq> 0) (bytes_below c)"
  assumes cap: "length (L 256) \<le> 16"
    and "c \<le> 256" and "size_m nn = length (L c)"
    and "length (key16 nn) = 16" and "length (child16 nn) = 16"
    and "take (length (L c)) (key16 nn) = L c"
    and "\<forall>j < length (L c). child16 nn ! j = child48 n ! unat (key48 n (L c ! j) - 1)"
  shows "\<exists>nn'. node48_shrink_loop n c nn = Inr nn' \<and> size_m nn' = length (L 256) \<and>
           prefix nn' = prefix nn \<and> length (key16 nn') = 16 \<and>
           take (length (L 256)) (key16 nn') = L 256 \<and>
           (\<forall>j < length (L 256). child16 nn' ! j = child48 n ! unat (key48 n (L 256 ! j) - 1))"
  using assms(3-)
proof (induction "256 - c" arbitrary: c nn)
  case 0
  then have "c = 256" by simp
  with 0 show ?case
    by (subst node48_shrink_loop.simps) simp
next
  case (Suc m)
  then have lt: "c < 256" by simp
  define bb :: byte where "bb = of_nat c"
  have LS: "L (Suc c) = L c @ (if key48 n bb \<noteq> 0 then [bb] else [])"
    by (simp add: L_def bytes_below_Suc bb_def)
  show ?case
  proof (cases "key48 n bb = 0")
    case True
    have step: "node48_shrink_loop n c nn = node48_shrink_loop n (Suc c) nn"
      using lt True by (subst node48_shrink_loop.simps) (simp add: bb_def)
    have Leq: "L (Suc c) = L c"
      using True by (simp add: LS)
    have "\<exists>nn'. node48_shrink_loop n (Suc c) nn = Inr nn' \<and> size_m nn' = length (L 256) \<and>
           prefix nn' = prefix nn \<and> length (key16 nn') = 16 \<and>
           take (length (L 256)) (key16 nn') = L 256 \<and>
           (\<forall>j < length (L 256). child16 nn' ! j = child48 n ! unat (key48 n (L 256 ! j) - 1))"
    proof (rule Suc.hyps(1))
      show "m = 256 - Suc c" using Suc.hyps(2) by simp
      show "Suc c \<le> 256" using lt by simp
      show "size_m nn = length (L (Suc c))" using Suc.prems(2) by (simp add: Leq)
      show "length (key16 nn) = 16" by (rule Suc.prems(3))
      show "length (child16 nn) = 16" by (rule Suc.prems(4))
      show "take (length (L (Suc c))) (key16 nn) = L (Suc c)"
        using Suc.prems(5) by (simp add: Leq)
      show "\<forall>j < length (L (Suc c)). child16 nn ! j = child48 n ! unat (key48 n (L (Suc c) ! j) - 1)"
        using Suc.prems(6) by (simp add: Leq)
    qed
    then show ?thesis unfolding step .
  next
    case False
    then have pos: "0 < key48 n bb"
      by (simp add: word_neq_0_conv)
    define sz where "sz = length (L c)"
    define ch where "ch = child48 n ! unat (key48 n bb - 1)"
    have Leq: "L (Suc c) = L c @ [bb]"
      using False by (simp add: LS)
    have "length (L (Suc c)) \<le> length (L 256)"
      unfolding L_def using lt by (intro filter_bytes_below_mono) simp
    with cap have szlt: "sz < 16"
      by (simp add: Leq sz_def)
    define nn1 where "nn1 = nn\<lparr>key16 := (key16 nn)[size_m nn := bb],
      child16 := (child16 nn)[size_m nn := ch], size_m := size_m nn + 1\<rparr>"
    have add: "node16_addChild nn bb ch = Inr nn1"
      using szlt Suc.prems(2) by (simp add: node16_addChild_def nn1_def sz_def)
    have step: "node48_shrink_loop n c nn = node48_shrink_loop n (Suc c) nn1"
      using lt pos add by (subst node48_shrink_loop.simps) (simp add: bb_def ch_def)
    have s1: "size_m nn1 = Suc sz" "prefix nn1 = prefix nn" "length (key16 nn1) = 16"
      "length (child16 nn1) = 16"
      using Suc.prems by (simp_all add: nn1_def sz_def)
    have k1: "key16 nn1 = (key16 nn)[sz := bb]" and c1: "child16 nn1 = (child16 nn)[sz := ch]"
      using Suc.prems(2) by (simp_all add: nn1_def sz_def)
    have tk: "take (length (L (Suc c))) (key16 nn1) = L (Suc c)"
    proof -
      have "take (Suc sz) ((key16 nn)[sz := bb]) = take sz ((key16 nn)[sz := bb]) @ [bb]"
        using szlt Suc.prems(3) by (simp add: take_Suc_conv_app_nth)
      also have "take sz ((key16 nn)[sz := bb]) = take sz (key16 nn)"
        by simp
      also have "take sz (key16 nn) = L c"
        using Suc.prems(5) by (simp add: sz_def)
      finally show ?thesis
        by (simp add: k1 Leq sz_def)
    qed
    have inv1: "\<forall>j < length (L (Suc c)).
        child16 nn1 ! j = child48 n ! unat (key48 n (L (Suc c) ! j) - 1)"
    proof (intro allI impI)
      fix j assume "j < length (L (Suc c))"
      then have "j < Suc sz" by (simp add: Leq sz_def)
      then consider "j = sz" | "j < sz" by linarith
      then show "child16 nn1 ! j = child48 n ! unat (key48 n (L (Suc c) ! j) - 1)"
      proof cases
        case 1
        then show ?thesis
          using szlt Suc.prems(4) by (simp add: Leq c1 ch_def sz_def)
      next
        case 2
        then have mj: "L (Suc c) ! j = L c ! j"
          by (simp add: Leq nth_append sz_def)
        from 2 Suc.prems(6) show ?thesis
          by (simp add: mj c1 sz_def)
      qed
    qed
    have "\<exists>nn'. node48_shrink_loop n (Suc c) nn1 = Inr nn' \<and> size_m nn' = length (L 256) \<and>
           prefix nn' = prefix nn1 \<and> length (key16 nn') = 16 \<and>
           take (length (L 256)) (key16 nn') = L 256 \<and>
           (\<forall>j < length (L 256). child16 nn' ! j = child48 n ! unat (key48 n (L 256 ! j) - 1))"
    proof (rule Suc.hyps(1))
      show "m = 256 - Suc c" using Suc.hyps(2) by simp
      show "Suc c \<le> 256" using lt by simp
      show "size_m nn1 = length (L (Suc c))" by (simp add: s1 Leq sz_def)
      show "length (key16 nn1) = 16" by (rule s1)
      show "length (child16 nn1) = 16" by (rule s1)
      show "take (length (L (Suc c))) (key16 nn1) = L (Suc c)" by (rule tk)
      show "\<forall>j < length (L (Suc c)).
          child16 nn1 ! j = child48 n ! unat (key48 n (L (Suc c) ! j) - 1)"
        by (rule inv1)
    qed
    then show ?thesis unfolding step s1 .
  qed
qed

lemma node48_shrink_lookup:
  assumes "inv48 n" and "size_m n \<le> 16"
  shows "\<exists>r. node48_shrink n = Inr (Some r) \<and>
           size_m r = length (filter (\<lambda>d. key48 n d \<noteq> 0) (bytes_below 256)) \<and>
           prefix r = [] \<and> (\<forall>c. node16_lookup r c = node48_lookup n c)"
proof -
  define L where "L = filter (\<lambda>d. key48 n d \<noteq> 0) (bytes_below 256)"
  from node48_table_count(1) [OF assms(1)] assms(2) have cap: "length L \<le> 16"
    by (simp add: L_def)
  have "\<exists>nn'. node48_shrink_loop n 0 (newNode16 []) = Inr nn' \<and>
      size_m nn' = length (filter (\<lambda>d. key48 n d \<noteq> 0) (bytes_below 256)) \<and>
      prefix nn' = prefix (newNode16 [] :: 'a node16) \<and> length (key16 nn') = 16 \<and>
      take (length (filter (\<lambda>d. key48 n d \<noteq> 0) (bytes_below 256))) (key16 nn') =
        filter (\<lambda>d. key48 n d \<noteq> 0) (bytes_below 256) \<and>
      (\<forall>j < length (filter (\<lambda>d. key48 n d \<noteq> 0) (bytes_below 256)).
         child16 nn' ! j =
           child48 n ! unat (key48 n (filter (\<lambda>d. key48 n d \<noteq> 0) (bytes_below 256) ! j) - 1))"
    using cap unfolding L_def
    by (intro node48_shrink_loop_inv)
      (simp_all add: newNode16_def setPrefix_def bytes_below_def)
  then obtain r where r: "node48_shrink_loop n 0 (newNode16 []) = Inr r"
    and sz: "size_m r = length L" and pf: "prefix r = prefix (newNode16 [] :: 'a node16)"
    and lk: "length (key16 r) = 16" and tk: "take (length L) (key16 r) = L"
    and ent: "\<And>j. j < length L \<Longrightarrow> child16 r ! j = child48 n ! unat (key48 n (L ! j) - 1)"
    unfolding L_def by blast
  have dist: "distinct L"
    unfolding L_def by (intro distinct_filter distinct_bytes_below) simp
  have mem: "(c \<in> set L) = (key48 n c \<noteq> 0)" for c
    by (simp add: L_def set_bytes_below_256)
  have l16: "node16_lookup r c = map_option (\<lambda>k. child16 r ! k) (IndexByte L c)" for c
    using node16_lookup_IndexByte [of r c] sz lk cap tk by simp
  have "node16_lookup r c = node48_lookup n c" for c
  proof (cases "key48 n c = 0")
    case True
    then have "c \<notin> set L" by (simp add: mem)
    then have "IndexByte L c = None" by (simp add: IndexByte_None)
    with True show ?thesis
      by (simp add: l16 node48_lookup_eq)
  next
    case False
    then have "c \<in> set L" by (simp add: mem)
    then obtain j where j: "j < length L" and c: "L ! j = c"
      by (auto simp: in_set_conv_nth)
    from IndexByte_distinct [OF dist j] c have "IndexByte L c = Some j" by simp
    with ent [OF j] c False show ?thesis
      by (simp add: l16 node48_lookup_eq unat_minus_one)
  qed
  with r sz pf assms(2) show ?thesis
    by (simp add: node48_shrink_def newNode16_def setPrefix_def L_def)
qed

subsection \<open>Every stored child of a \<^verbatim>\<open>node48\<close> keeps a table entry\<close>

lemma wf48_newNode48: "wf48 (newNode48 pre)"
  using inv48_newNode48 [of pre] by (simp add: wf48_def newNode48_def setPrefix_def)

lemma wf48_addChild:
  assumes "wf48 n" and "size_m n < 48" and "key48 n c = 0" and "nn \<noteq> None"
  shows "\<exists>n'. node48_addChild n c nn = Inr n' \<and> wf48 n'"
proof -
  from assms(1) have inv: "inv48 n"
    and sur: "\<forall>i < size_m n. \<exists>d. unat (key48 n d) = i + 1"
    by (simp_all add: wf48_def)
  from inv48_addChild [OF inv assms(2,3,4)] obtain n' where
    a: "node48_addChild n c nn = Inr n'" and i': "inv48 n'" and s': "size_m n' = size_m n + 1"
    by blast
  from a assms(2) have k': "key48 n' = (key48 n)(c := of_nat (size_m n + 1))"
    by (auto simp: node48_addChild_def)
  have u: "unat (of_nat (size_m n + 1) :: byte) = size_m n + 1"
    using assms(2) by (intro unat_of_nat_byte) simp
  have "\<exists>d. unat (key48 n' d) = i + 1" if "i < size_m n'" for i
  proof (cases "i < size_m n")
    case True
    with sur obtain d where d: "unat (key48 n d) = i + 1" by blast
    with assms(3) have "d \<noteq> c" by auto
    with d show ?thesis by (intro exI [of _ d]) (simp add: k')
  next
    case False
    with that s' have "i = size_m n" by simp
    with u show ?thesis by (intro exI [of _ c]) (simp add: k')
  qed
  with i' a show ?thesis by (simp add: wf48_def)
qed

lemma wf48_deleteChild:
  assumes "wf48 n"
  shows "wf48 (node48_deleteChild n c)"
proof (cases "key48 n c = 0")
  case True
  with assms show ?thesis by (simp add: node48_deleteChild_absent)
next
  case False
  from assms have inv: "inv48 n"
    and sur: "\<forall>i < size_m n. \<exists>d. unat (key48 n d) = i + 1"
    by (simp_all add: wf48_def)
  define n' where "n' = node48_deleteChild n c"
  from inv48_deleteChild_present [OF inv False] have i': "inv48 n'"
    and s': "size_m n' = size_m n - 1"
    by (simp_all add: n'_def)
  have k': "key48 n' d =
      (if d = c then 0
       else if unat (key48 n c) < size_m n \<and> unat (key48 n d) = size_m n then key48 n c
       else key48 n d)" for d
    unfolding n'_def node48_deleteChild_eq [OF inv False] by simp
  have "\<exists>d. unat (key48 n' d) = i + 1" if "i < size_m n'" for i
  proof -
    from that s' have lt: "i + 1 < size_m n" by simp
    then have "i < size_m n" by simp
    with sur obtain d where d: "unat (key48 n d) = i + 1" by blast
    show ?thesis
    proof (cases "d = c")
      case False
      with d lt show ?thesis by (intro exI [of _ d]) (simp add: k')
    next
      case True
      from lt have "size_m n - 1 < size_m n" by simp
      with sur obtain e where e: "unat (key48 n e) = size_m n - 1 + 1" by blast
      with lt have e': "unat (key48 n e) = size_m n" by simp
      with d True lt have "e \<noteq> c" by auto
      with e' d True lt show ?thesis by (intro exI [of _ e]) (simp add: k')
    qed
  qed
  with i' show ?thesis by (simp add: wf48_def n'_def)
qed

subsection \<open>The example nodes\<close>

lemma wf48_node48_B_A: "wf48 node48_B_A"
proof -
  have "\<exists>c. unat (key48 node48_B_A c) = i + 1" if "i < 2" for i
  proof -
    from that consider "i = 0" | "i = 1" by linarith
    then show ?thesis
    proof cases
      case 1
      then show ?thesis by (intro exI [of _ "0x42"]) (simp add: node48_B_A_def)
    next
      case 2
      then show ?thesis by (intro exI [of _ "0x41"]) (simp add: node48_B_A_def)
    qed
  qed
  moreover have "size_m node48_B_A = 2"
    by (simp add: node48_B_A_def)
  ultimately show ?thesis
    using inv48_node48_B_A by (simp add: wf48_def)
qed

lemma wf256_node256_B_A: "wf256 node256_B_A"
  by code_simp

lemma wf4_node4_full: "wf4 node4_full"
  by (simp add: wf4_def node4_full_def nth_Cons split: nat.split)

lemma wf10_node10_full: "wf10 node10_full"
  by (simp add: wf10_def node10_full_def nth_Cons split: nat.split)

lemma wf16_node16_full: "wf16 node16_full"
  by (simp add: wf16_def node16_full_def nth_Cons split: nat.split)

lemma wf4_node4_one: "wf4 node4_one"
  by (simp add: wf4_def node4_one_def)

lemma wf48_prefix: "wf48 (n\<lparr>prefix := p\<rparr>) = wf48 n"
  by (simp add: wf48_def inv48_def)

lemma wf256_prefix: "wf256 (n\<lparr>prefix := p\<rparr>) = wf256 n"
  by (simp add: wf256_def)

subsection \<open>The shrink thresholds\<close>

text \<open>
  Claim C6. For every well-formed internal node, \<^verbatim>\<open>shrink()\<close> yields a replacement exactly
  when the shrink threshold of the variant is met, and \<^verbatim>\<open>nil\<close> otherwise: a Node10 yields a
  Node4 iff its child count is at most 4, a Node16 a Node10 iff it is at most 10, a Node48
  a Node16 iff it is at most 16, a Node256 a Node48 iff it is at most 48, and a Node4
  yields a replacement iff its child count is exactly 1, and the replacement is then its
  sole child. The variant of a replacement is the type of the result; no call panics.
\<close>

theorem shrink_threshold:
  assumes "wf4 n4" and "wf10 n10" and "wf16 n16" and "inv48 n48" and "wf256 n256"
  shows "((node4_shrink n4 \<noteq> None) = (size_m n4 = 1)) \<and>
         node4_shrink n4 = (if size_m n4 = 1 then child4 n4 ! 0 else None) \<and>
         (\<exists>r. node10_shrink n10 = Inr r \<and> ((r \<noteq> None) = (size_m n10 \<le> 4))) \<and>
         (\<exists>r. node16_shrink n16 = Inr r \<and> ((r \<noteq> None) = (size_m n16 \<le> 10))) \<and>
         (\<exists>r. node48_shrink n48 = Inr r \<and> ((r \<noteq> None) = (size_m n48 \<le> 16))) \<and>
         (\<exists>r. node256_shrink n256 = Inr r \<and> ((r \<noteq> None) = (size_m n256 \<le> 48)))"
proof (intro conjI)
  have "child4 n4 ! 0 \<noteq> None" if "size_m n4 = 1"
    using assms(1) that by (simp add: wf4_def)
  then show "(node4_shrink n4 \<noteq> None) = (size_m n4 = 1)"
    by (simp add: node4_shrink_def)
  show "node4_shrink n4 = (if size_m n4 = 1 then child4 n4 ! 0 else None)"
    by (simp add: node4_shrink_def)
next
  show "\<exists>r. node10_shrink n10 = Inr r \<and> ((r \<noteq> None) = (size_m n10 \<le> 4))"
  proof (cases "size_m n10 \<le> 4")
    case True
    with assms(2) have "size_m n10 \<le> length (key10 n10)" "size_m n10 \<le> length (child10 n10)"
      by (simp_all add: wf10_def)
    from node10_shrink_lookup [OF True this, of "[]"] True show ?thesis
      by (auto simp: node10_shrink_def)
  next
    case False
    then show ?thesis by (simp add: node10_shrink_def)
  qed
next
  show "\<exists>r. node16_shrink n16 = Inr r \<and> ((r \<noteq> None) = (size_m n16 \<le> 10))"
  proof (cases "size_m n16 \<le> 10")
    case True
    with assms(3) have "size_m n16 \<le> length (key16 n16)" "size_m n16 \<le> length (child16 n16)"
      by (simp_all add: wf16_def)
    from node16_shrink_lookup [OF True this, of "[]"] True show ?thesis
      by (auto simp: node16_shrink_def)
  next
    case False
    then show ?thesis by (simp add: node16_shrink_def)
  qed
next
  show "\<exists>r. node48_shrink n48 = Inr r \<and> ((r \<noteq> None) = (size_m n48 \<le> 16))"
  proof (cases "size_m n48 \<le> 16")
    case True
    from node48_shrink_lookup [OF assms(4) True] True show ?thesis
      by auto
  next
    case False
    then show ?thesis by (simp add: node48_shrink_def)
  qed
next
  show "\<exists>r. node256_shrink n256 = Inr r \<and> ((r \<noteq> None) = (size_m n256 \<le> 48))"
  proof (cases "size_m n256 \<le> 48")
    case True
    from node256_shrink_lookup [OF assms(5) True] True show ?thesis
      by auto
  next
    case False
    then show ?thesis by (simp add: node256_shrink_def)
  qed
qed

theorem shrink_threshold_witness:
  "node4_shrink node4_one = Some 7 \<and> node4_shrink node4_full = None \<and>
   (\<exists>r. node10_shrink node10_full = Inr r \<and> r = None) \<and>
   (\<exists>r. node16_shrink node16_full = Inr r \<and> r = None) \<and>
   (\<exists>r. node48_shrink node48_B_A = Inr r \<and> r \<noteq> None) \<and>
   (\<exists>r. node256_shrink node256_B_A = Inr r \<and> r \<noteq> None)"
proof -
  note t = shrink_threshold [OF wf4_node4_one wf10_node10_full wf16_node16_full
      inv48_node48_B_A wf256_node256_B_A]
  note u = shrink_threshold [OF wf4_node4_full wf10_node10_full wf16_node16_full
      inv48_node48_B_A wf256_node256_B_A]
  have s: "size_m node4_one = 1" "child4 node4_one ! 0 = Some 7" "size_m node4_full = 4"
    "size_m node10_full = 10" "size_m node16_full = 16" "size_m node48_B_A = 2"
    "size_m node256_B_A = 2"
    by (simp_all add: node4_one_def node4_full_def node10_full_def node16_full_def
        node48_B_A_def node256_B_A_def)
  from t s have a: "node4_shrink node4_one = Some 7" by simp
  from u s have b: "node4_shrink node4_full = None" by simp
  from t s have c: "\<exists>r. node10_shrink node10_full = Inr r \<and> r = None" by simp
  from t s have d: "\<exists>r. node16_shrink node16_full = Inr r \<and> r = None" by simp
  from t s have e: "\<exists>r. node48_shrink node48_B_A = Inr r \<and> r \<noteq> None" by simp
  from t s have f: "\<exists>r. node256_shrink node256_B_A = Inr r \<and> r \<noteq> None" by simp
  from a b c d e f show ?thesis by blast
qed

subsection \<open>Growing\<close>



subsection \<open>The prefix of a shrunk node\<close>

text \<open>
  Claim C10. For every well-formed Node10, Node16, Node48 or Node256 whose child count
  is at or below its shrink threshold, \<^verbatim>\<open>shrink()\<close> returns a replacement with the empty
  prefix, whatever the prefix of the original is; the child count of the replacement is
  that of the original, and \<^verbatim>\<open>findChild\<close> on the replacement gives for every byte the child
  that \<^verbatim>\<open>findChild\<close> gives on the original, or no child where that gives none.
\<close>

theorem shrink_empty_prefix:
  assumes "wf10 n10" and "size_m n10 \<le> 4" and "wf16 n16" and "size_m n16 \<le> 10"
    and "wf48 n48" and "size_m n48 \<le> 16" and "wf256 n256" and "size_m n256 \<le> 48"
  shows "(\<exists>r. node10_shrink n10 = Inr (Some r) \<and> prefix r = [] \<and> size_m r = size_m n10 \<and>
            (\<forall>c. node4_lookup r c = node10_lookup n10 c)) \<and>
         (\<exists>r. node16_shrink n16 = Inr (Some r) \<and> prefix r = [] \<and> size_m r = size_m n16 \<and>
            (\<forall>c. node10_lookup r c = node16_lookup n16 c)) \<and>
         (\<exists>r. node48_shrink n48 = Inr (Some r) \<and> prefix r = [] \<and> size_m r = size_m n48 \<and>
            (\<forall>c. node16_lookup r c = node48_lookup n48 c)) \<and>
         (\<exists>r. node256_shrink n256 = Inr (Some r) \<and> prefix r = [] \<and> size_m r = size_m n256 \<and>
            (\<forall>c. node48_lookup r c = node256_lookup n256 c))"
proof (intro conjI)
  from assms(1,2) have "size_m n10 \<le> length (key10 n10)" "size_m n10 \<le> length (child10 n10)"
    by (simp_all add: wf10_def)
  from node10_shrink_lookup [OF assms(2) this, of "[]"] assms(2)
  show "\<exists>r. node10_shrink n10 = Inr (Some r) \<and> prefix r = [] \<and> size_m r = size_m n10 \<and>
          (\<forall>c. node4_lookup r c = node10_lookup n10 c)"
    by (auto simp: node10_shrink_def)
next
  from assms(3,4) have "size_m n16 \<le> length (key16 n16)" "size_m n16 \<le> length (child16 n16)"
    by (simp_all add: wf16_def)
  from node16_shrink_lookup [OF assms(4) this, of "[]"] assms(4)
  show "\<exists>r. node16_shrink n16 = Inr (Some r) \<and> prefix r = [] \<and> size_m r = size_m n16 \<and>
          (\<forall>c. node10_lookup r c = node16_lookup n16 c)"
    by (auto simp: node16_shrink_def)
next
  from assms(5) have i: "inv48 n48"
    by (simp add: wf48_def)
  from node48_shrink_lookup [OF i assms(6)] obtain r where
    r: "node48_shrink n48 = Inr (Some r)" "prefix r = []"
      "\<forall>c. node16_lookup r c = node48_lookup n48 c"
    and sz: "size_m r = length (filter (\<lambda>d. key48 n48 d \<noteq> 0) (bytes_below 256))"
    by blast
  from sz have "size_m r = size_m n48"
    by (simp only: node48_table_count(2) [OF i assms(5)])
  with r show "\<exists>r. node48_shrink n48 = Inr (Some r) \<and> prefix r = [] \<and> size_m r = size_m n48 \<and>
          (\<forall>c. node16_lookup r c = node48_lookup n48 c)"
    by blast
next
  from node256_shrink_lookup [OF assms(7,8)]
  show "\<exists>r. node256_shrink n256 = Inr (Some r) \<and> prefix r = [] \<and> size_m r = size_m n256 \<and>
          (\<forall>c. node48_lookup r c = node256_lookup n256 c)"
    by blast
qed

theorem shrink_empty_prefix_witness:
  "prefix (node10_B_A\<lparr>prefix := b ''foo.''\<rparr>) = b ''foo.'' \<and>
   (\<exists>r. node10_shrink (node10_B_A\<lparr>prefix := b ''foo.''\<rparr>) = Inr (Some r) \<and> prefix r = [] \<and>
      size_m r = 2 \<and> node4_lookup r 0x42 = Some (Some 1) \<and> node4_lookup r 0x5A = None) \<and>
   (\<exists>r. node16_shrink (node16_B_A\<lparr>prefix := b ''foo.''\<rparr>) = Inr (Some r) \<and> prefix r = [] \<and>
      size_m r = 2 \<and> node10_lookup r 0x42 = Some (Some 1) \<and> node10_lookup r 0x5A = None) \<and>
   (\<exists>r. node48_shrink (node48_B_A\<lparr>prefix := b ''foo.''\<rparr>) = Inr (Some r) \<and> prefix r = [] \<and>
      size_m r = 2 \<and> node16_lookup r 0x42 = Some (Some 1) \<and> node16_lookup r 0x5A = None) \<and>
   (\<exists>r. node256_shrink (node256_B_A\<lparr>prefix := b ''foo.''\<rparr>) = Inr (Some r) \<and> prefix r = [] \<and>
      size_m r = 2 \<and> node48_lookup r 0x42 = Some (Some 1) \<and> node48_lookup r 0x5A = None)"
proof -
  let ?n10 = "node10_B_A\<lparr>prefix := b ''foo.''\<rparr>"
  let ?n16 = "node16_B_A\<lparr>prefix := b ''foo.''\<rparr>"
  let ?n48 = "node48_B_A\<lparr>prefix := b ''foo.''\<rparr>"
  let ?n256 = "node256_B_A\<lparr>prefix := b ''foo.''\<rparr>"
  have w10: "wf10 ?n10"
    by (auto simp: wf10_def node10_B_A_def less_Suc_eq numeral_2_eq_2)
  have w16: "wf16 ?n16"
    by (auto simp: wf16_def node16_B_A_def less_Suc_eq numeral_2_eq_2)
  have w48: "wf48 ?n48"
    using wf48_node48_B_A by (simp only: wf48_prefix)
  have w256: "wf256 ?n256"
    using wf256_node256_B_A by (simp only: wf256_prefix)
  have s: "size_m ?n10 = 2" "size_m ?n16 = 2" "size_m ?n48 = 2" "size_m ?n256 = 2"
    by (simp_all add: node10_B_A_def node16_B_A_def node48_B_A_def node256_B_A_def)
  have le: "size_m ?n10 \<le> 4" "size_m ?n16 \<le> 10" "size_m ?n48 \<le> 16" "size_m ?n256 \<le> 48"
    by (simp_all only: s)
  note t = shrink_empty_prefix [OF w10 le(1) w16 le(2) w48 le(3) w256 le(4)]
  have l10: "node10_lookup ?n10 0x42 = Some (Some 1)" "node10_lookup ?n10 0x5A = None"
    by (simp_all add: node10_lookup_IndexByte node10_B_A_def)
  have l16: "node16_lookup ?n16 0x42 = Some (Some 1)" "node16_lookup ?n16 0x5A = None"
    by (simp_all add: node16_lookup_IndexByte node16_B_A_def)
  have l48: "node48_lookup ?n48 0x42 = Some (Some 1)" "node48_lookup ?n48 0x5A = None"
    by (simp_all add: node48_lookup_eq node48_B_A_def)
  have l256: "node256_lookup ?n256 0x42 = Some (Some 1)" "node256_lookup ?n256 0x5A = None"
    by (simp_all add: node256_lookup_def node256_findChild_def node256_B_A_def)
  have p: "prefix ?n10 = b ''foo.''"
    by simp
  from t have a: "\<exists>r. node10_shrink ?n10 = Inr (Some r) \<and> prefix r = [] \<and>
      size_m r = 2 \<and> node4_lookup r 0x42 = Some (Some 1) \<and> node4_lookup r 0x5A = None"
    by (simp only: s(1) [symmetric] l10 [symmetric]) blast
  from t have c: "\<exists>r. node16_shrink ?n16 = Inr (Some r) \<and> prefix r = [] \<and>
      size_m r = 2 \<and> node10_lookup r 0x42 = Some (Some 1) \<and> node10_lookup r 0x5A = None"
    by (simp only: s(2) [symmetric] l16 [symmetric]) blast
  from t have d: "\<exists>r. node48_shrink ?n48 = Inr (Some r) \<and> prefix r = [] \<and>
      size_m r = 2 \<and> node16_lookup r 0x42 = Some (Some 1) \<and> node16_lookup r 0x5A = None"
    by (simp only: s(3) [symmetric] l48 [symmetric]) blast
  from t have e: "\<exists>r. node256_shrink ?n256 = Inr (Some r) \<and> prefix r = [] \<and>
      size_m r = 2 \<and> node48_lookup r 0x42 = Some (Some 1) \<and> node48_lookup r 0x5A = None"
    by (simp only: s(4) [symmetric] l256 [symmetric]) blast
  from p a c d e show ?thesis by blast
qed

section \<open>Properties of \<^verbatim>\<open>Insert\<close>\<close>

text \<open>
  Claim C9. For every tree and every subject that contains the no-pivot byte, \<^verbatim>\<open>Insert\<close>
  returns no previous value and the flag \<open>false\<close>, and leaves the tree as it was: its size
  and its stored entries are unchanged.
\<close>

theorem Insert_noPivot_rejected:
  assumes "noPivot \<in> set subject"
  shows "snd (Insert t subject v) = (None, False) \<and>
         fst (Insert t subject v) = t \<and>
         tsize (fst (Insert t subject v)) = tsize t \<and>
         entries (fst (Insert t subject v)) = entries t"
  using assms by (simp add: Insert_def)

theorem Insert_noPivot_rejected_witness:
  "noPivot \<in> set (b ''foo.bar.baz.'' @ [noPivot]) \<and>
   snd (Insert (fst (Insert NewSubjectTree (b ''foo'') (1 :: nat))) (b ''foo.bar.baz.'' @ [noPivot]) 22) =
     (None, False) \<and>
   tsize (fst (Insert (fst (Insert NewSubjectTree (b ''foo'') (1 :: nat)))
     (b ''foo.bar.baz.'' @ [noPivot]) 22)) = 1 \<and>
   entries (fst (Insert (fst (Insert NewSubjectTree (b ''foo'') (1 :: nat)))
     (b ''foo.bar.baz.'' @ [noPivot]) 22)) = [(b ''foo'', 1)]"
proof -
  let ?t = "fst (Insert NewSubjectTree (b ''foo'') (1 :: nat))"
  have m: "noPivot \<in> set (b ''foo.bar.baz.'' @ [noPivot])"
    by simp
  have t: "?t = \<lparr>root = Some (Leaf (b ''foo'') 1), tsize = 1\<rparr>"
    by (simp add: Insert_def NewSubjectTree_def b_def noPivot_def)
  have e: "tsize ?t = 1 \<and> entries ?t = [(b ''foo'', 1)]"
    unfolding t by (simp add: entries_def)
  from Insert_noPivot_rejected [OF m, of ?t 22] m e show ?thesis
    by simp
qed
end
